theory Spec2Isabelle
  imports Complex_Main "HOL-Library.AList" "HOL-Library.Char_ord" "HOL-Library.List_Lexorder"
    "HOL-Library.Product_Lexorder"
begin

section \<open>Python strings\<close>

text \<open>
  A Python \<open>str\<close> is modelled as a \<open>string\<close>: a list of characters, each character a code
  point in the range U+0000 .. U+00FF. This range holds every character the two tools
  test for (ESC, brackets, digits, letters, CR, LF, the prompt marker) and is exactly what
  the converter reads, since it decodes its input as latin-1.
\<close>

abbreviation ESC :: char where "ESC \<equiv> CHR 0x1B"
abbreviation LF :: char where "LF \<equiv> CHR 0x0A"
abbreviation CR :: char where "CR \<equiv> CHR 0x0D"

text \<open>\<open>str.isspace\<close> on one character: TAB, LF, VT, FF, CR, FS, GS, RS, US, space, NEL, NBSP.\<close>

definition is_space :: "char \<Rightarrow> bool" where
  "is_space c = (c \<in> set [CHR 0x09, CHR 0x0A, CHR 0x0B, CHR 0x0C, CHR 0x0D,
                           CHR 0x1C, CHR 0x1D, CHR 0x1E, CHR 0x1F, CHR 0x20,
                           CHR 0x85, CHR 0xA0])"

definition py_lstrip :: "string \<Rightarrow> string" where
  "py_lstrip s = dropWhile is_space s"

definition py_rstrip :: "string \<Rightarrow> string" where
  "py_rstrip s = rev (dropWhile is_space (rev s))"

text \<open>\<open>s.strip()\<close>\<close>

definition py_strip :: "string \<Rightarrow> string" where
  "py_strip s = py_rstrip (py_lstrip s)"

text \<open>\<open>s.replace(c, "")\<close> for a one-character \<open>c\<close>\<close>

definition py_remove :: "char \<Rightarrow> string \<Rightarrow> string" where
  "py_remove c s = filter (\<lambda>x. x \<noteq> c) s"

text \<open>\<open>s.split(sep)\<close> for a one-character separator: empty pieces are kept.\<close>

fun py_split_on :: "char \<Rightarrow> string \<Rightarrow> string list" where
  "py_split_on sep [] = [[]]"
| "py_split_on sep (c # cs) =
     (if c = sep then [] # py_split_on sep cs
      else (case py_split_on sep cs of [] \<Rightarrow> [[c]] | p # ps \<Rightarrow> (c # p) # ps))"


section \<open>The swarm bot: prompt detection\<close>

text \<open>
  \<open>ANSI_RE = re.compile(r"\x1b\[[0-9;]*[A-Za-z]")\<close>. The two character classes are disjoint,
  so the greedy star needs no backtracking: at an ESC followed by an opening bracket the
  longest run of digits and semicolons is skipped, and the sequence matches iff a letter
  follows that run.
\<close>

definition is_csi_param :: "char \<Rightarrow> bool" where
  "is_csi_param c = (c \<in> set ''0123456789;'')"

definition is_ascii_letter :: "char \<Rightarrow> bool" where
  "is_ascii_letter c = (c \<in> set ''ABCDEFGHIJKLMNOPQRSTUVWXYZabcdefghijklmnopqrstuvwxyz'')"

text \<open>
  \<open>PromptState._strip_ansi\<close>, that is \<open>ANSI_RE.sub("", s)\<close>: every leftmost match is deleted
  and the scan goes on behind it; where no match starts, the character is kept.
\<close>

function strip_ansi :: "string \<Rightarrow> string" where
  "strip_ansi [] = []"
| "strip_ansi (c # cs) =
     (if c = ESC then
        (case cs of
           [] \<Rightarrow> c # strip_ansi cs
         | b # rest \<Rightarrow>
             if b = CHR ''['' then
               (case dropWhile is_csi_param rest of
                  [] \<Rightarrow> c # strip_ansi cs
                | l # after \<Rightarrow>
                    if is_ascii_letter l then strip_ansi after else c # strip_ansi cs)
             else c # strip_ansi cs)
      else c # strip_ansi cs)"
  by pat_completeness auto
termination
proof (relation "measure length")
  fix c :: char and cs b rest l after
  assume cs: "cs = b # rest" and d: "dropWhile is_csi_param rest = l # after"
  have "length (dropWhile is_csi_param rest) \<le> length rest"
    by (rule length_dropWhile_le)
  with d cs show "(after, c # cs) \<in> measure length"
    by simp
qed auto

record PromptState =
  at_prompt :: bool

text \<open>\<open>PromptState.__init__\<close>\<close>

definition PromptState_init :: PromptState where
  "PromptState_init = \<lparr>at_prompt = False\<rparr>"

text \<open>\<open>PromptState._looks_like_prompt\<close>\<close>

definition looks_like_prompt :: "string \<Rightarrow> bool" where
  "looks_like_prompt frame =
     (if frame = [] then False
      else
        let s = strip_ansi frame;
            s = py_remove CR s
        in if py_strip s = ''>'' then True
           else
             let parts = py_split_on LF s
             in if parts \<noteq> [] \<and> py_strip (last parts) = ''>'' then True
                else False)"

text \<open>\<open>PromptState.observe_incoming\<close>\<close>

definition observe_incoming :: "PromptState \<Rightarrow> string \<Rightarrow> PromptState" where
  "observe_incoming ps text =
     (if looks_like_prompt text then ps\<lparr>at_prompt := True\<rparr> else ps)"

text \<open>\<open>PromptState.sent_command\<close>\<close>

definition sent_command :: "PromptState \<Rightarrow> PromptState" where
  "sent_command ps = ps\<lparr>at_prompt := False\<rparr>"

text \<open>
  The rule as the specification words it: strip the CSI sequences, remove the carriage
  returns, and ask whether the whole text, or its last line, trims to the prompt marker.
\<close>

definition last_line :: "string \<Rightarrow> string" where
  "last_line s = rev (takeWhile (\<lambda>c. c \<noteq> LF) (rev s))"

definition spec_is_prompt :: "string \<Rightarrow> bool" where
  "spec_is_prompt frame =
     (let s = py_remove CR (strip_ansi frame)
      in py_strip s = ''>'' \<or> py_strip (last_line s) = ''>'')"

text \<open>Observing a sequence of frames, one after the other.\<close>

definition observe_all :: "PromptState \<Rightarrow> string list \<Rightarrow> PromptState" where
  "observe_all ps frames = fold (\<lambda>f p. observe_incoming p f) frames ps"


section \<open>The swarm bot: connection and I/O primitives\<close>

text \<open>
  Exceptions are values: a function that can raise returns \<open>error + 'a\<close> next to the state
  it leaves behind, since Python keeps every mutation made before the raise.
\<close>

datatype error = TimeoutError | ConnectionClosed | IndexError | ValueError | SystemExit

text \<open>What \<open>ws.recv()\<close> returns: a \<open>str\<close> for a text frame, \<open>bytes\<close> for a binary one.\<close>

datatype message = Text string | Binary string

datatype delivery = Frame message | Close

text \<open>
  The websocket and the clock, as the bot sees them. \<open>now\<close> is \<open>time.monotonic()\<close>.
  \<open>inbox\<close> is what the server will deliver, in order, each item with its arrival time: an
  item whose time is not after \<open>now\<close> has arrived and waits to be read; \<open>Close\<close> is the end
  of the connection. \<open>outbox\<close> holds the frames sent so far, and \<open>recv_calls\<close> counts the
  calls of \<open>ws.recv()\<close>. Console output (\<open>_vprint\<close>, \<open>print\<close>) is not part of the state.
\<close>

record Connection =
  now :: real
  inbox :: "(real \<times> delivery) list"
  outbox :: "string list"
  recv_calls :: nat

definition connection_lost :: "Connection \<Rightarrow> bool" where
  "connection_lost ws = list_ex (\<lambda>(t, d). d = Close \<and> t \<le> now ws) (inbox ws)"

text \<open>
  \<open>recv_with_timeout\<close>, that is \<open>asyncio.wait_for(ws.recv(), timeout=timeout_s)\<close>: the next
  item is taken if it arrives before the timeout runs out, and the clock moves to its
  arrival; otherwise the clock moves by the timeout and \<open>TimeoutError\<close> is raised.
\<close>

definition recv_with_timeout :: "Connection \<Rightarrow> real \<Rightarrow> (error + message) \<times> Connection" where
  "recv_with_timeout ws timeout_s =
     (let ws = ws\<lparr>recv_calls := Suc (recv_calls ws)\<rparr>;
          expired = ws\<lparr>now := now ws + max 0 timeout_s\<rparr>
      in case inbox ws of
           [] \<Rightarrow> (Inl TimeoutError, expired)
         | (t, d) # rest \<Rightarrow>
             if 0 < timeout_s \<and> t < now ws + timeout_s then
               (case d of
                  Frame m \<Rightarrow> (Inr m, ws\<lparr>now := max (now ws) t, inbox := rest\<rparr>)
                | Close \<Rightarrow> (Inl ConnectionClosed, ws\<lparr>now := max (now ws) t\<rparr>))
             else (Inl TimeoutError, expired))"

text \<open>\<open>ws.send(data)\<close>: raises on a connection that has ended, transmits otherwise.\<close>

definition ws_send :: "Connection \<Rightarrow> string \<Rightarrow> (error + unit) \<times> Connection" where
  "ws_send ws data =
     (if connection_lost ws then (Inl ConnectionClosed, ws)
      else (Inr (), ws\<lparr>outbox := outbox ws @ [data]\<rparr>))"

lemma recv_with_timeout_shortens:
  "recv_with_timeout ws r = (Inr m, ws') \<Longrightarrow> length (inbox ws') < length (inbox ws)"
  by (auto simp: recv_with_timeout_def Let_def split: list.splits if_splits delivery.splits)

text \<open>
  The \<open>while True\<close> loop of \<open>recv_until_prompt\<close>, with \<open>deadline\<close> fixed before it. Every
  pass that goes round again has taken one item from the inbox, so the loop ends.
\<close>

function recv_until_prompt_loop ::
  "Connection \<Rightarrow> PromptState \<Rightarrow> real \<Rightarrow> (error + unit) \<times> Connection \<times> PromptState" where
  "recv_until_prompt_loop ws ps deadline =
     (let remaining = deadline - now ws
      in if remaining \<le> 0 then (Inl TimeoutError, ws, ps)
         else
           (case recv_with_timeout ws remaining of
              (Inl e, ws') \<Rightarrow> (Inl e, ws', ps)
            | (Inr (Binary b), ws') \<Rightarrow> recv_until_prompt_loop ws' ps deadline
            | (Inr (Text msg), ws') \<Rightarrow>
                let ps' = observe_incoming ps msg
                in if at_prompt ps' then (Inr (), ws', ps')
                   else recv_until_prompt_loop ws' ps' deadline))"
  by pat_completeness auto
termination
  by (relation "measure (\<lambda>(ws, ps, deadline). length (inbox ws))")
     (auto dest: recv_with_timeout_shortens [OF sym])

declare recv_until_prompt_loop.simps [simp del]

text \<open>\<open>recv_until_prompt\<close>\<close>

definition recv_until_prompt ::
  "Connection \<Rightarrow> PromptState \<Rightarrow> real \<Rightarrow> (error + unit) \<times> Connection \<times> PromptState" where
  "recv_until_prompt ws ps timeout_s =
     (if at_prompt ps then (Inr (), ws, ps)
      else recv_until_prompt_loop ws ps (now ws + timeout_s))"

text \<open>\<open>send_line\<close>\<close>

definition send_line ::
  "Connection \<Rightarrow> PromptState \<Rightarrow> string \<Rightarrow> (error + unit) \<times> Connection \<times> PromptState" where
  "send_line ws ps line =
     (case ws_send ws (line @ [LF]) of
        (Inl e, ws') \<Rightarrow> (Inl e, ws', ps)
      | (Inr _, ws') \<Rightarrow> (Inr (), ws', sent_command ps))"

text \<open>\<open>send_and_wait_prompt\<close>\<close>

definition send_and_wait_prompt ::
  "Connection \<Rightarrow> PromptState \<Rightarrow> string \<Rightarrow> real \<Rightarrow> (error + unit) \<times> Connection \<times> PromptState" where
  "send_and_wait_prompt ws ps cmd timeout_s =
     (case recv_until_prompt ws ps timeout_s of
        (Inl e, ws1, ps1) \<Rightarrow> (Inl e, ws1, ps1)
      | (Inr _, ws1, ps1) \<Rightarrow>
          (case send_line ws1 ps1 cmd of
             (Inl e, ws2, ps2) \<Rightarrow> (Inl e, ws2, ps2)
           | (Inr _, ws2, ps2) \<Rightarrow> recv_until_prompt ws2 ps2 timeout_s))"

text \<open>The texts among a run of inbox items, in order.\<close>

fun frame_texts :: "(real \<times> delivery) list \<Rightarrow> string list" where
  "frame_texts [] = []"
| "frame_texts ((t, Frame (Text s)) # xs) = s # frame_texts xs"
| "frame_texts (x # xs) = frame_texts xs"

section \<open>Python floats\<close>

text \<open>
  A Python \<open>float\<close> is an IEEE 754 binary64 number. \<open>Finite m e\<close> stands for the number
  \<open>m * 2 ^ e\<close>; the doubles are the numbers with such a form where \<open>\<bar>m\<bar> < 2 ^ 53\<close>,
  \<open>- 1074 \<le> e\<close> and the magnitude is below \<open>2 ^ 1024\<close> (\<open>is_double\<close> below), together with
  the two infinities and NaN. One number has several forms (\<open>Finite 2 0\<close> and \<open>Finite 1 1\<close>),
  so doubles are compared with \<open>flt\<close>, not with \<open>=\<close>. The two zeros of binary64 are one
  zero here: the operations modelled, \<open>+\<close>, \<open>-\<close>, \<open>*\<close> and \<open><\<close>, give the same number and
  the same truth value for either zero.
\<close>

datatype double = Finite int int | PInf | NInf | NaN

text \<open>The number of binary digits of a positive integer.\<close>

function bitlen :: "int \<Rightarrow> int" where
  "bitlen n = (if n \<le> 0 then 0 else 1 + bitlen (n div 2))"
  by pat_completeness auto

termination
  by (relation "measure nat") auto

declare bitlen.simps [simp del]

text \<open>
  Rounding to nearest, ties to even. \<open>round_half_even n k\<close> drops the last \<open>k\<close> binary
  digits of \<open>n\<close>. \<open>round_mag n e\<close> rounds the magnitude \<open>n * 2 ^ e\<close> to 53 significant
  digits, or to fewer where the exponent would fall below the least one, \<open>- 1074\<close>; a
  mantissa that rounds up to \<open>2 ^ 53\<close> is written with 53 digits again; the result is
  \<open>None\<close>, an overflow, when the rounded magnitude reaches \<open>2 ^ 1024\<close>.
\<close>

definition round_half_even :: "int \<Rightarrow> nat \<Rightarrow> int" where
  "round_half_even n k =
     (let q = n div 2 ^ k; rest = n mod 2 ^ k
      in if 2 ^ k < 2 * rest \<or> (2 * rest = 2 ^ k \<and> odd q) then q + 1 else q)"

definition round_mag :: "int \<Rightarrow> int \<Rightarrow> (int \<times> int) option" where
  "round_mag n e =
     (let k = nat (max (bitlen n - 53) (- 1074 - e));
          q = round_half_even n k;
          (q, e) = (if q = 2 ^ 53 then (2 ^ 52, e + int k + 1) else (q, e + int k))
      in if q \<noteq> 0 \<and> 1024 < bitlen q + e then None else Some (q, e))"

definition round_double :: "int \<Rightarrow> int \<Rightarrow> double" where
  "round_double m e =
     (case round_mag \<bar>m\<bar> e of
        None \<Rightarrow> if m < 0 then NInf else PInf
      | Some (q, e') \<Rightarrow> Finite (if m < 0 then - q else q) e')"

text \<open>
  \<open>x + y\<close>, \<open>x - y\<close>, \<open>x * y\<close> and \<open>x < y\<close> on floats: the exact result, rounded; the
  infinities and NaN as IEEE 754 has them.
\<close>

fun fneg :: "double \<Rightarrow> double" where
  "fneg (Finite m e) = Finite (- m) e"
| "fneg PInf = NInf"
| "fneg NInf = PInf"
| "fneg NaN = NaN"

fun fadd :: "double \<Rightarrow> double \<Rightarrow> double" where
  "fadd (Finite m1 e1) (Finite m2 e2) =
     (let e = min e1 e2
      in round_double (m1 * 2 ^ nat (e1 - e) + m2 * 2 ^ nat (e2 - e)) e)"
| "fadd NaN y = NaN"
| "fadd x NaN = NaN"
| "fadd PInf NInf = NaN"
| "fadd NInf PInf = NaN"
| "fadd PInf y = PInf"
| "fadd NInf y = NInf"
| "fadd x PInf = PInf"
| "fadd x NInf = NInf"

definition fsub :: "double \<Rightarrow> double \<Rightarrow> double" where
  "fsub x y = fadd x (fneg y)"

fun fsign :: "double \<Rightarrow> int" where
  "fsign (Finite m e) = sgn m"
| "fsign PInf = 1"
| "fsign NInf = - 1"
| "fsign NaN = 0"

fun fmul :: "double \<Rightarrow> double \<Rightarrow> double" where
  "fmul (Finite m1 e1) (Finite m2 e2) = round_double (m1 * m2) (e1 + e2)"
| "fmul NaN y = NaN"
| "fmul x NaN = NaN"
| "fmul x y =
     (let s = fsign x * fsign y
      in if s = 0 then NaN else if s < 0 then NInf else PInf)"

fun flt :: "double \<Rightarrow> double \<Rightarrow> bool" where
  "flt (Finite m1 e1) (Finite m2 e2) =
     (let e = min e1 e2 in m1 * 2 ^ nat (e1 - e) < m2 * 2 ^ nat (e2 - e))"
| "flt NaN y = False"
| "flt x NaN = False"
| "flt PInf y = False"
| "flt x NInf = False"
| "flt NInf y = True"
| "flt x PInf = True"

text \<open>\<open>0.0 <= x\<close>, \<open>x == 0.0\<close>, and the forms that are doubles.\<close>

fun nonneg :: "double \<Rightarrow> bool" where
  "nonneg (Finite m e) = (0 \<le> m)"
| "nonneg PInf = True"
| "nonneg NInf = False"
| "nonneg NaN = False"

fun is_zero :: "double \<Rightarrow> bool" where
  "is_zero (Finite m e) = (m = 0)"
| "is_zero PInf = False"
| "is_zero NInf = False"
| "is_zero NaN = False"

fun is_double :: "double \<Rightarrow> bool" where
  "is_double (Finite m e) =
     (\<bar>m\<bar> < 2 ^ 53 \<and> - 1074 \<le> e \<and> (m = 0 \<or> bitlen \<bar>m\<bar> + e \<le> 1024))"
| "is_double PInf = True"
| "is_double NInf = True"
| "is_double NaN = True"

section \<open>The swarm bot: configuration, random choices and the action loop\<close>

record BotStats =
  kills :: int
  moves :: int
  gets :: int

text \<open>
  \<open>SwarmConfig\<close>. The three weights, which \<open>choose_action\<close> computes with, are floats;
  the durations are real numbers. \<open>BotStats\<close> has a field \<open>moves\<close> too: the plain name
  \<open>moves\<close> is the configuration's list, the counter is \<open>BotStats.moves\<close>.
\<close>

record SwarmConfig =
  url :: string
  clients :: int
  minutes :: real
  ramp_per_sec :: real
  verbose :: bool
  move_weight :: double
  kill_weight :: double
  look_weight :: double
  moves :: "string list"
  avoid_immediate_backtrack :: bool
  get_lantern :: bool
  get_every :: int
  think_min_ms :: int
  think_max_ms :: int
  progress_every_s :: real
  connect_timeout_s :: real
  io_timeout_s :: real

text \<open>
  The module-wide generator of \<open>random\<close> is passed explicitly: the sequence of raw values
  it will produce, each call taking the first and leaving the rest. \<open>random.random()\<close>
  is a 53-bit integer divided by \<open>2 ^ 53\<close>, which is a float; \<open>random.choice(seq)\<close> is \<open>seq[i]\<close> for a
  drawn index \<open>i\<close> below \<open>len(seq)\<close> and raises \<open>IndexError\<close> on an empty sequence;
  \<open>random.randint(a, b)\<close> raises \<open>ValueError\<close> on an empty range.
\<close>

type_synonym rng = "nat \<Rightarrow> nat"

definition randbelow :: "nat \<Rightarrow> rng \<Rightarrow> nat \<times> rng" where
  "randbelow n g = (g 0 mod n, \<lambda>i. g (Suc i))"

definition random_random :: "rng \<Rightarrow> double \<times> rng" where
  "random_random g = (Finite (int (g 0 mod 2 ^ 53)) (- 53), \<lambda>i. g (Suc i))"

definition random_choice :: "'a list \<Rightarrow> rng \<Rightarrow> (error + 'a) \<times> rng" where
  "random_choice seq g =
     (if seq = [] then (Inl IndexError, g)
      else let (i, g') = randbelow (length seq) g in (Inr (seq ! i), g'))"

definition random_randint :: "int \<Rightarrow> int \<Rightarrow> rng \<Rightarrow> (error + int) \<times> rng" where
  "random_randint a b g =
     (if b < a then (Inl ValueError, g)
      else let (i, g') = randbelow (nat (b - a + 1)) g in (Inr (a + int i), g'))"

text \<open>A generator that yields the same raw value forever.\<close>

definition const_rng :: "nat \<Rightarrow> rng" where
  "const_rng k i = k"

definition OPPOSITE :: "(string \<times> string) list" where
  "OPPOSITE =
     [(''north'', ''south''), (''south'', ''north''), (''east'', ''west''),
      (''west'', ''east''), (''up'', ''down''), (''down'', ''up'')]"

text \<open>\<open>choose_action\<close>\<close>

definition choose_action :: "SwarmConfig \<Rightarrow> rng \<Rightarrow> string \<times> rng" where
  "choose_action cfg g =
     (let total = fadd (fadd (move_weight cfg) (kill_weight cfg)) (look_weight cfg);
          (u, g') = random_random g;
          r = fmul u total
      in if flt r (move_weight cfg) then (''move'', g')
         else
           let r = fsub r (move_weight cfg)
           in if flt r (kill_weight cfg) then (''kill'', g') else (''look'', g'))"

text \<open>
  \<open>choose_move\<close>. \<open>not last_move\<close> holds for \<open>None\<close> and for the empty string;
  \<open>OPPOSITE.get(last_move)\<close> is \<open>None\<close> for a direction outside the table, and then no
  move is filtered out.
\<close>

definition choose_move :: "SwarmConfig \<Rightarrow> string option \<Rightarrow> rng \<Rightarrow> (error + string) \<times> rng" where
  "choose_move cfg last_move g =
     (if \<not> avoid_immediate_backtrack cfg \<or> last_move = None \<or> last_move = Some []
      then random_choice (moves cfg) g
      else
        let back = map_of OPPOSITE (the last_move);
            candidates = filter (\<lambda>m. Some m \<noteq> back) (moves cfg)
        in if candidates \<noteq> [] then random_choice candidates g
           else random_choice (moves cfg) g)"

text \<open>\<open>string.ascii_lowercase + string.digits\<close>\<close>

definition ALPHABET :: string where
  "ALPHABET = ''abcdefghijklmnopqrstuvwxyz'' @ ''0123456789''"

text \<open>\<open>_rand_suffix(n)\<close>: \<open>n\<close> characters, each a \<open>random.choice\<close> from the alphabet.\<close>

fun rand_suffix :: "nat \<Rightarrow> rng \<Rightarrow> string \<times> rng" where
  "rand_suffix 0 g = ([], g)"
| "rand_suffix (Suc n) g =
     (let (i, g1) = randbelow (length ALPHABET) g;
          (cs, g2) = rand_suffix n g1
      in ((ALPHABET ! i) # cs, g2))"

text \<open>\<open>str(n)\<close> for a natural number.\<close>

fun decimal :: "nat \<Rightarrow> string" where
  "decimal n =
     (if n < 10 then [''0123456789'' ! n]
      else decimal (n div 10) @ [''0123456789'' ! (n mod 10)])"

declare decimal.simps [simp del]

text \<open>
  The format \<open>{n:04d}\<close>: the decimal digits, padded with zeros on the left to a width of
  at least four; a minus sign counts towards the width.
\<close>

definition format_04d :: "int \<Rightarrow> string" where
  "format_04d n =
     (if n < 0 then
        let ds = decimal (nat (- n)) in ''-'' @ replicate (3 - length ds) CHR ''0'' @ ds
      else
        let ds = decimal (nat n) in replicate (4 - length ds) CHR ''0'' @ ds)"

text \<open>The name and the password that \<open>bot_task\<close> makes up for bot \<open>bot_id\<close>.\<close>

definition bot_credentials :: "int \<Rightarrow> rng \<Rightarrow> (string \<times> string) \<times> rng" where
  "bot_credentials bot_id g =
     (let (s4, g1) = rand_suffix 4 g;
          name = ''Bot'' @ format_04d bot_id @ ''_'' @ s4;
          (s6, g2) = rand_suffix 6 g1;
          password = ''Pw'' @ format_04d bot_id @ ''_'' @ s6
      in ((name, password), g2))"

text \<open>The local state of one \<open>bot_task\<close> once it is connected.\<close>

record Bot =
  bot_ws :: Connection
  bot_ps :: PromptState
  bot_stats :: BotStats
  bot_last_move :: "string option"
  bot_rng :: rng

text \<open>\<open>asyncio.sleep(delay)\<close>\<close>

definition asyncio_sleep :: "Connection \<Rightarrow> real \<Rightarrow> Connection" where
  "asyncio_sleep ws delay = ws\<lparr>now := now ws + max 0 delay\<rparr>"

text \<open>\<open>send_and_wait_prompt(ws, ps, cmd, cfg.io_timeout_s, ...)\<close> on the bot's connection.\<close>

definition bot_command :: "SwarmConfig \<Rightarrow> Bot \<Rightarrow> string \<Rightarrow> (error + unit) \<times> Bot" where
  "bot_command cfg b cmd =
     (case send_and_wait_prompt (bot_ws b) (bot_ps b) cmd (io_timeout_s cfg) of
        (r, ws', ps') \<Rightarrow> (r, b\<lparr>bot_ws := ws', bot_ps := ps'\<rparr>))"

text \<open>The kill branch of the action loop, with the loot trigger.\<close>

definition bot_kill :: "SwarmConfig \<Rightarrow> Bot \<Rightarrow> (error + unit) \<times> Bot" where
  "bot_kill cfg b =
     (case bot_command cfg b ''kill rat'' of
        (Inl e, b1) \<Rightarrow> (Inl e, b1)
      | (Inr _, b1) \<Rightarrow>
          let b2 = b1\<lparr>bot_stats := (bot_stats b1)\<lparr>kills := kills (bot_stats b1) + 1\<rparr>\<rparr>
          in if get_lantern cfg \<and> get_every cfg > 0
                \<and> kills (bot_stats b2) mod get_every cfg = 0
             then
               (case bot_command cfg b2 ''get lantern'' of
                  (Inl e, b3) \<Rightarrow> (Inl e, b3)
                | (Inr _, b3) \<Rightarrow>
                    (Inr (), b3\<lparr>bot_stats := (bot_stats b3)\<lparr>gets := gets (bot_stats b3) + 1\<rparr>\<rparr>))
             else (Inr (), b2))"

text \<open>One pass of the \<open>while\<close> loop of \<open>bot_task\<close>: think, choose, act.\<close>

definition bot_iteration :: "SwarmConfig \<Rightarrow> Bot \<Rightarrow> (error + unit) \<times> Bot" where
  "bot_iteration cfg b =
     (case random_randint (think_min_ms cfg) (think_max_ms cfg) (bot_rng b) of
        (Inl e, g) \<Rightarrow> (Inl e, b\<lparr>bot_rng := g\<rparr>)
      | (Inr think_ms, g) \<Rightarrow>
          let b = b\<lparr>bot_rng := g,
                    bot_ws := asyncio_sleep (bot_ws b) (real_of_int think_ms / 1000)\<rparr>;
              (action, g) = choose_action cfg (bot_rng b);
              b = b\<lparr>bot_rng := g\<rparr>
          in if action = ''look'' then bot_command cfg b ''look''
             else if action = ''move'' then
               (case choose_move cfg (bot_last_move b) (bot_rng b) of
                  (Inl e, g) \<Rightarrow> (Inl e, b\<lparr>bot_rng := g\<rparr>)
                | (Inr mv, g) \<Rightarrow>
                    (case bot_command cfg (b\<lparr>bot_rng := g\<rparr>) mv of
                       (Inl e, b1) \<Rightarrow> (Inl e, b1)
                     | (Inr _, b1) \<Rightarrow>
                         (Inr (), b1\<lparr>bot_stats := (bot_stats b1)
                                       \<lparr>BotStats.moves := BotStats.moves (bot_stats b1) + 1\<rparr>,
                                     bot_last_move := Some mv\<rparr>)))
             else bot_kill cfg b)"

section \<open>The swarm bot: the specification's wording\<close>

text \<open>
  The weighted draw as the specification words it: the band weights are subtracted from
  \<open>r\<close> in the order move, kill, look, and the first band that contains what is left of
  \<open>r\<close> wins.
\<close>

definition spec_band :: "SwarmConfig \<Rightarrow> double \<Rightarrow> string" where
  "spec_band cfg r =
     (if flt r (move_weight cfg) then ''move''
      else if flt (fsub r (move_weight cfg)) (kill_weight cfg) then ''kill''
      else ''look'')"

text \<open>
  The opposite of a direction as the specification lists the pairs.
\<close>

definition spec_opposite :: "string \<Rightarrow> string option" where
  "spec_opposite d =
     (if d = ''north'' then Some ''south'' else if d = ''south'' then Some ''north''
      else if d = ''east'' then Some ''west'' else if d = ''west'' then Some ''east''
      else if d = ''up'' then Some ''down'' else if d = ''down'' then Some ''up''
      else None)"

text \<open>
  The moves to pick from, as the specification words the rule: the whole movement set when
  there is no last move or backtrack-avoidance is off; otherwise the set without the
  opposite of the last move, unless that leaves nothing.
\<close>

definition spec_move_candidates :: "SwarmConfig \<Rightarrow> string option \<Rightarrow> string list" where
  "spec_move_candidates cfg last_move =
     (case last_move of
        None \<Rightarrow> moves cfg
      | Some d \<Rightarrow>
          if \<not> avoid_immediate_backtrack cfg then moves cfg
          else
            let rest = filter (\<lambda>m. spec_opposite d \<noteq> Some m) (moves cfg)
            in if rest = [] then moves cfg else rest)"

text \<open>
  The shape of a generated credential as the specification gives it: the prefix, four
  decimal digits, an underscore, and \<open>n\<close> lowercase ASCII letters or digits.
\<close>

definition is_digit :: "char \<Rightarrow> bool" where
  "is_digit c = (c \<in> set ''0123456789'')"

definition is_lower_alnum :: "char \<Rightarrow> bool" where
  "is_lower_alnum c = (c \<in> set ''abcdefghijklmnopqrstuvwxyz0123456789'')"

definition credential_format :: "string \<Rightarrow> nat \<Rightarrow> string \<Rightarrow> bool" where
  "credential_format prefix n s =
     (let p = length prefix
      in length s = p + 4 + 1 + n
       \<and> take p s = prefix
       \<and> list_all is_digit (take 4 (drop p s))
       \<and> s ! (p + 4) = CHR ''_''
       \<and> list_all is_lower_alnum (drop (p + 5) s))"

text \<open>
  The number that a string of decimal digits denotes.
\<close>

definition digit_value :: "char \<Rightarrow> nat" where
  "digit_value c = of_char c - 48"

definition decimal_value :: "string \<Rightarrow> nat" where
  "decimal_value s = foldl (\<lambda>acc c. 10 * acc + digit_value c) 0 s"

text \<open>
  The loot trigger as the specification words it: looting is enabled and the kill count
  is an exact positive multiple of the interval.
\<close>

definition spec_loot_due :: "SwarmConfig \<Rightarrow> int \<Rightarrow> bool" where
  "spec_loot_due cfg n = (get_lantern cfg \<and> (\<exists>m > 0. n = m * get_every cfg))"

section \<open>The area converter: strings and dictionaries\<close>

text \<open>\<open>s.startswith(p)\<close>\<close>

definition py_startswith :: "string \<Rightarrow> string \<Rightarrow> bool" where
  "py_startswith s p = (take (length p) s = p)"

text \<open>\<open>s.split()\<close>: the pieces between runs of whitespace, none of them empty.\<close>

function py_split_ws :: "string \<Rightarrow> string list" where
  "py_split_ws s =
     (let s' = dropWhile is_space s
      in if s' = [] then []
         else takeWhile (\<lambda>c. \<not> is_space c) s'
              # py_split_ws (dropWhile (\<lambda>c. \<not> is_space c) s'))"
  by pat_completeness auto
termination
proof (relation "measure length")
  fix s s' :: string
  assume s': "s' = dropWhile is_space s" and ne: "s' \<noteq> []"
  from ne have "\<not> is_space (hd s')"
    unfolding s' by (rule hd_dropWhile)
  with ne have "dropWhile (\<lambda>c. \<not> is_space c) s' = dropWhile (\<lambda>c. \<not> is_space c) (tl s')"
    by (cases s') simp_all
  then have "length (dropWhile (\<lambda>c. \<not> is_space c) s') \<le> length (tl s')"
    using length_dropWhile_le [of "\<lambda>c. \<not> is_space c" "tl s'"] by simp
  also have "\<dots> < length s'"
    using ne by (cases s') simp_all
  also have "\<dots> \<le> length s"
    unfolding s' by (rule length_dropWhile_le)
  finally show "(dropWhile (\<lambda>c. \<not> is_space c) s', s) \<in> measure length"
    by simp
qed simp

declare py_split_ws.simps [simp del]

text \<open>\<open>c.isdigit()\<close> for a character below U+0100: the ASCII digits and the superscripts 1, 2, 3.\<close>

definition py_isdigit :: "char \<Rightarrow> bool" where
  "py_isdigit c = (c \<in> set ''0123456789'' \<or> c \<in> set [CHR 0xB2, CHR 0xB3, CHR 0xB9])"

text \<open>
  \<open>s.lower()\<close>, character by character: below U+0100 the capital letters are A to Z and
  U+00C0 to U+00DE without the multiplication sign, each 32 below its small letter.
\<close>

definition py_lower_char :: "char \<Rightarrow> char" where
  "py_lower_char c =
     (let n = (of_char c :: nat)
      in if (65 \<le> n \<and> n \<le> 90) \<or> (192 \<le> n \<and> n \<le> 222 \<and> n \<noteq> 215)
         then char_of (n + 32) else c)"

definition py_lower :: "string \<Rightarrow> string" where
  "py_lower s = map py_lower_char s"

text \<open>\<open>sep.join(xs)\<close>\<close>

fun py_join :: "string \<Rightarrow> string list \<Rightarrow> string" where
  "py_join sep [] = []"
| "py_join sep [x] = x"
| "py_join sep (x # y # ys) = x @ sep @ py_join sep (y # ys)"

text \<open>\<open>s.strip(c)\<close> for a one-character \<open>c\<close>\<close>

definition py_strip_char :: "char \<Rightarrow> string \<Rightarrow> string" where
  "py_strip_char c s = rev (dropWhile (\<lambda>x. x = c) (rev (dropWhile (\<lambda>x. x = c) s)))"

text \<open>\<open>str(n)\<close> for an integer.\<close>

definition py_str_int :: "int \<Rightarrow> string" where
  "py_str_int n = (if n < 0 then ''-'' @ decimal (nat (- n)) else decimal (nat n))"

text \<open>
  A Python \<open>dict\<close> with string keys is an association list in insertion order:
  \<open>d[k] = v\<close> is \<open>AList.update k v d\<close> (a new key goes to the end, an old key keeps its
  place), \<open>k in d\<close> is \<open>has_key d k\<close>, and \<open>d.update(other)\<close> and a dict comprehension
  assign the items in their order.
\<close>

definition has_key :: "('k \<times> 'v) list \<Rightarrow> 'k \<Rightarrow> bool" where
  "has_key d k = (k \<in> fst ` set d)"

definition dict_update :: "('k \<times> 'v) list \<Rightarrow> ('k \<times> 'v) list \<Rightarrow> ('k \<times> 'v) list" where
  "dict_update d other = fold (\<lambda>(k, v) acc. AList.update k v acc) other d"

definition dict_of :: "('k \<times> 'v) list \<Rightarrow> ('k \<times> 'v) list" where
  "dict_of items = dict_update [] items"

text \<open>The values the converter builds and writes out.\<close>

datatype pyval =
    PStr string
  | PInt int
  | PBool bool
  | PDict "(string \<times> pyval) list"
  | PList "pyval list"

text \<open>\<open>d.get(k)\<close> on a value that is a dict.\<close>

fun dict_get :: "pyval \<Rightarrow> string \<Rightarrow> pyval option" where
  "dict_get (PDict kvs) k = map_of kvs k"
| "dict_get v k = None"


section \<open>The area converter: parsing\<close>

definition DIRECTION_MAP :: "(string \<times> string) list" where
  "DIRECTION_MAP =
     [(''0'', ''north''), (''1'', ''east''), (''2'', ''south''),
      (''3'', ''west''), (''4'', ''up''), (''5'', ''down'')]"

record Room =
  vnum :: string
  title :: string
  description :: string
  exits :: "(string \<times> string) list"

text \<open>
  The three classes share field names, so a field is always written with its class:
  \<open>Room.vnum\<close>, \<open>Mob.name\<close>, \<open>Item.room_vnum\<close>. The field names are constants from here on;
  where the source has a local variable of the same name, the variable is renamed.
\<close>

record Mob =
  vnum :: string
  name :: string
  room_vnum :: "string option"

record Item =
  vnum :: string
  name :: string
  room_vnum :: "string option"

text \<open>\<open>clean_tilde\<close>\<close>

definition clean_tilde :: "string \<Rightarrow> string" where
  "clean_tilde text = py_strip (py_remove CHR ''~'' text)"

text \<open>
  \<open>slug\<close>: \<open>re.sub(r"[^a-z0-9]+", "_", text.lower())\<close> puts one underscore for each longest
  run of characters that are neither a small ASCII letter nor a digit.
\<close>

definition is_slug_char :: "char \<Rightarrow> bool" where
  "is_slug_char c = (c \<in> set ''abcdefghijklmnopqrstuvwxyz0123456789'')"

function slug_sub :: "string \<Rightarrow> string" where
  "slug_sub [] = []"
| "slug_sub (c # cs) =
     (if is_slug_char c then c # slug_sub cs
      else CHR ''_'' # slug_sub (dropWhile (\<lambda>x. \<not> is_slug_char x) cs))"
  by pat_completeness auto
termination
  by (relation "measure length") (auto simp: length_dropWhile_le less_Suc_eq_le)

definition slug :: "string \<Rightarrow> string" where
  "slug text =
     (let s = py_strip_char CHR ''_'' (slug_sub (py_lower text))
      in if s \<noteq> [] then s else ''zone'')"

text \<open>\<open>quote\<close>: backslashes are doubled first, then each double quote gets a backslash.\<close>

definition quote :: "string \<Rightarrow> string" where
  "quote s =
     [CHR 0x22]
     @ concat (map (\<lambda>c. if c = CHR 0x5C then [CHR 0x5C, CHR 0x5C]
                         else if c = CHR 0x22 then [CHR 0x5C, CHR 0x22]
                         else [c]) s)
     @ [CHR 0x22]"

text \<open>
  The loop \<open>while i < len(lines) and "~" not in lines[i]: i += 1\<close>, which
  \<open>parse_rooms\<close> runs twice for each exit.
\<close>

function skip_to_tilde :: "string list \<Rightarrow> nat \<Rightarrow> nat" where
  "skip_to_tilde lines i =
     (if i < length lines \<and> CHR ''~'' \<notin> set (lines ! i) then skip_to_tilde lines (i + 1)
      else i)"
  by pat_completeness auto
termination
  by (relation "measure (\<lambda>(lines, i). length lines - i)") auto

declare skip_to_tilde.simps [simp del]

text \<open>The same loop where it collects the description lines.\<close>

function read_desc :: "string list \<Rightarrow> nat \<Rightarrow> string list \<Rightarrow> nat \<times> string list" where
  "read_desc lines i desc =
     (if i < length lines \<and> CHR ''~'' \<notin> set (lines ! i)
      then read_desc lines (i + 1) (desc @ [py_rstrip (lines ! i)])
      else (i, desc))"
  by pat_completeness auto
termination
  by (relation "measure (\<lambda>(lines, i, desc). length lines - i)") auto

declare read_desc.simps [simp del]

lemma skip_to_tilde_ge: "i \<le> skip_to_tilde lines i"
proof (induction lines i rule: skip_to_tilde.induct)
  case (1 lines i)
  then show ?case
    by (subst skip_to_tilde.simps) (auto dest: Suc_leD)
qed

lemma read_desc_ge: "i \<le> fst (read_desc lines i desc)"
proof (induction lines i desc rule: read_desc.induct)
  case (1 lines i desc)
  then show ?case
    by (subst read_desc.simps) (auto dest: Suc_leD)
qed

text \<open>
  The loop over the exits of one room. \<open>d\<close> is the digit of a line \<open>D<digit>\<close>; its
  direction is \<open>DIRECTION_MAP.get(d, f"dir_{d}")\<close>.
\<close>

definition direction_of :: "char \<Rightarrow> string" where
  "direction_of d =
     (case map_of DIRECTION_MAP [d] of Some dir \<Rightarrow> dir | None \<Rightarrow> ''dir_'' @ [d])"

function read_exits ::
  "string list \<Rightarrow> nat \<Rightarrow> (string \<times> string) list \<Rightarrow> nat \<times> (string \<times> string) list" where
  "read_exits lines i acc =
     (if i < length lines then
        let cur = py_strip (lines ! i)
        in if py_startswith cur ''D'' \<and> length cur = 2 \<and> py_isdigit (cur ! 1) then
             let d = cur ! 1;
                 j = skip_to_tilde lines (i + 1) + 1;
                 j = skip_to_tilde lines j + 1
             in if j < length lines then
                  let parts = py_split_ws (lines ! j);
                      acc = (if length parts \<ge> 3
                             then AList.update (direction_of d) (parts ! 2) acc
                             else acc)
                  in read_exits lines (j + 1) acc
                else (j, acc)
           else if cur = ''S'' then (i + 1, acc)
           else read_exits lines (i + 1) acc
      else (i, acc))"
  by pat_completeness auto
termination
proof (relation "measure (\<lambda>(lines, i, acc). length lines - i)")
  fix lines :: "string list" and i j j' :: nat and acc acc' :: "(string \<times> string) list"
  assume "i < length lines" and j: "j = skip_to_tilde lines (i + 1) + 1"
    and j': "j' = skip_to_tilde lines j + 1" and "j' < length lines"
  have "i + 1 \<le> skip_to_tilde lines (i + 1)" by (rule skip_to_tilde_ge)
  moreover have "j \<le> skip_to_tilde lines j" by (rule skip_to_tilde_ge)
  ultimately have "i < j'" using j j' by simp
  with \<open>j' < length lines\<close>
  show "((lines, j' + 1, acc'), lines, i, acc) \<in> measure (\<lambda>(lines, i, acc). length lines - i)"
    by simp
qed auto

declare read_exits.simps [simp del]

lemma read_exits_ge: "i \<le> fst (read_exits lines i acc)"
proof (induction lines i acc rule: read_exits.induct)
  case (1 lines i acc)
  show ?case
  proof (cases "i < length lines")
    case False
    then show ?thesis by (subst read_exits.simps) simp
  next
    case inside: True
    let ?cur = "py_strip (lines ! i)"
    let ?j = "skip_to_tilde lines (skip_to_tilde lines (i + 1) + 1) + 1"
    have far: "i \<le> ?j"
      using skip_to_tilde_ge [of "i + 1" lines]
            skip_to_tilde_ge [of "skip_to_tilde lines (i + 1) + 1" lines]
      by simp
    show ?thesis
    proof (cases "py_startswith ?cur ''D'' \<and> length ?cur = 2 \<and> py_isdigit (?cur ! 1)")
      case exit_line: True
      show ?thesis
      proof (cases "?j < length lines")
        case True
        let ?acc = "if length (py_split_ws (lines ! ?j)) \<ge> 3
                    then AList.update (direction_of (?cur ! 1)) (py_split_ws (lines ! ?j) ! 2) acc
                    else acc"
        have eq: "read_exits lines i acc = read_exits lines (?j + 1) ?acc"
          using inside exit_line True
          by (subst read_exits.simps [of lines i acc]) (simp only: Let_def if_True if_False simp_thms)
        have "i \<le> ?j + 1" using far by simp
        also from "1.IH"(1) [OF inside refl exit_line refl refl refl True refl refl]
        have "?j + 1 \<le> fst (read_exits lines (?j + 1) ?acc)" .
        finally show ?thesis unfolding eq .
      next
        case False
        have eq: "read_exits lines i acc = (?j, acc)"
          using inside exit_line False
          by (subst read_exits.simps [of lines i acc]) (simp only: Let_def if_True if_False simp_thms)
        show ?thesis unfolding eq using far by simp
      qed
    next
      case other: False
      show ?thesis
      proof (cases "?cur = ''S''")
        case True
        have eq: "read_exits lines i acc = (i + 1, acc)"
          using inside other True
          by (subst read_exits.simps [of lines i acc]) (simp only: Let_def if_True if_False simp_thms)
        show ?thesis unfolding eq by simp
      next
        case False
        have eq: "read_exits lines i acc = read_exits lines (i + 1) acc"
          using inside other False
          by (subst read_exits.simps [of lines i acc]) (simp only: Let_def if_True if_False simp_thms)
        have "i \<le> i + 1" by simp
        also from "1.IH"(2) [OF inside refl other False]
        have "i + 1 \<le> fst (read_exits lines (i + 1) acc)" .
        finally show ?thesis unfolding eq .
      qed
    qed
  qed
qed

text \<open>
  \<open>parse_rooms\<close>. The loop reads \<open>lines[i]\<close> unguarded right after a line \<open>#<vnum>\<close>, so
  such a line at the very end of the input raises \<open>IndexError\<close>.
\<close>

function parse_rooms_loop ::
  "string list \<Rightarrow> nat \<Rightarrow> (string \<times> Room) list \<Rightarrow> error + nat \<times> (string \<times> Room) list" where
  "parse_rooms_loop lines i rooms =
     (if i < length lines then
        let line = py_strip (lines ! i)
        in if line = ''#0'' then Inr (i + 1, rooms)
           else if \<not> py_startswith line ''#'' \<or> line = ''#ROOMS''
           then parse_rooms_loop lines (i + 1) rooms
           else
             let v = drop 1 line;
                 i1 = i + 1
             in if \<not> i1 < length lines then Inl IndexError
                else
                  let t = clean_tilde (lines ! i1);
                      (i2, desc) = read_desc lines (i1 + 1) [];
                      (i3, desc) =
                        (if i2 < length lines
                         then (i2 + 1, desc @ [py_rstrip (py_remove CHR ''~'' (lines ! i2))])
                         else (i2, desc));
                      i4 = i3 + 1;
                      (i5, exs) = read_exits lines i4 [];
                      d = py_strip (py_join [LF] (filter (\<lambda>x. x \<noteq> []) desc));
                      d = (if d \<noteq> [] then d else ''(no description)'')
                  in parse_rooms_loop lines i5
                       (AList.update v
                          \<lparr>Room.vnum = v, title = t, description = d, exits = exs\<rparr> rooms)
      else Inr (i, rooms))"
  by pat_completeness auto
termination
proof (relation "measure (\<lambda>(lines, i, rooms). length lines - i)")
  fix lines :: "string list" and i i1 i2 i3 i4 i5 :: nat
    and desc desc' :: "string list" and exs :: "(string \<times> string) list"
    and x :: "nat \<times> string list" and y :: "nat \<times> string list"
    and z :: "nat \<times> (string \<times> string) list"
  assume inside: "i < length lines" and i1: "i1 = i + 1"
    and x: "x = read_desc lines (i1 + 1) []" and x2: "(i2, desc) = x"
    and y: "y = (if i2 < length lines
                 then (i2 + 1, desc @ [py_rstrip (py_remove CHR ''~'' (lines ! i2))])
                 else (i2, desc))"
    and y2: "(i3, desc') = y" and i4: "i4 = i3 + 1"
    and z: "z = read_exits lines i4 []" and z2: "(i5, exs) = z"
  have "i1 + 1 \<le> i2"
    using read_desc_ge [of "i1 + 1" lines "[]"] x x2 by (metis fst_conv)
  moreover have "i2 \<le> i3"
    using y y2 by (auto split: if_splits)
  moreover have "i4 \<le> i5"
    using read_exits_ge [of i4 lines "[]"] z z2 by (metis fst_conv)
  ultimately have "i < i5"
    using i1 i4 by simp
  with inside show "((lines, i5, rooms'), lines, i, rooms)
      \<in> measure (\<lambda>(lines, i, rooms). length lines - i)"
    for rooms rooms' :: "(string \<times> Room) list"
    by simp
qed auto

declare parse_rooms_loop.simps [simp del]

definition parse_rooms ::
  "string list \<Rightarrow> nat \<Rightarrow> error + nat \<times> (string \<times> Room) list" where
  "parse_rooms lines i = parse_rooms_loop lines i []"

lemma parse_rooms_loop_room:
  assumes "i < length lines" and "py_strip (lines ! i) \<noteq> ''#0''"
    and "\<not> (\<not> py_startswith (py_strip (lines ! i)) ''#'' \<or> py_strip (lines ! i) = ''#ROOMS'')"
    and "i + 1 < length lines"
  shows "\<exists>j room. i < j \<and>
           parse_rooms_loop lines i rooms =
             parse_rooms_loop lines j (AList.update (drop 1 (py_strip (lines ! i))) room rooms)"
proof -
  obtain i2 desc where rd: "read_desc lines (i + 1 + 1) [] = (i2, desc)"
    by (cases "read_desc lines (i + 1 + 1) []")
  define y where "y = (if i2 < length lines
                       then (i2 + 1, desc @ [py_rstrip (py_remove CHR ''~'' (lines ! i2))])
                       else (i2, desc))"
  obtain i3 desc' where y: "y = (i3, desc')"
    by (cases y)
  obtain i5 exs where re: "read_exits lines (i3 + 1) [] = (i5, exs)"
    by (cases "read_exits lines (i3 + 1) []")
  have "i + 1 + 1 \<le> i2"
    using read_desc_ge [of "i + 1 + 1" lines "[]"] rd by simp
  moreover have "i2 \<le> i3"
    using y by (auto simp: y_def split: if_splits)
  moreover have "i3 + 1 \<le> i5"
    using read_exits_ge [of "i3 + 1" lines "[]"] re by simp
  ultimately have "i < i5"
    by simp
  moreover have "\<exists>room. parse_rooms_loop lines i rooms =
      parse_rooms_loop lines i5 (AList.update (drop 1 (py_strip (lines ! i))) room rooms)"
    using assms
    by (subst parse_rooms_loop.simps [of lines i rooms])
       (simp only: Let_def if_True if_False simp_thms rd y [unfolded y_def] re prod.case, blast)
  ultimately show ?thesis
    by blast
qed

lemma parse_rooms_loop_ge: "parse_rooms_loop lines i rooms = Inr (j, r) \<Longrightarrow> i \<le> j"
proof (induction "length lines - i" arbitrary: i rooms rule: less_induct)
  case less
  show ?case
  proof (cases "i < length lines")
    case False
    with less.prems show ?thesis
      by (simp add: parse_rooms_loop.simps [of lines i rooms])
  next
    case inside: True
    show ?thesis
    proof (cases "py_strip (lines ! i) = ''#0''")
      case True
      with less.prems inside show ?thesis
        by (simp add: parse_rooms_loop.simps [of lines i rooms])
    next
      case not_end: False
      show ?thesis
      proof (cases "\<not> py_startswith (py_strip (lines ! i)) ''#'' \<or> py_strip (lines ! i) = ''#ROOMS''")
        case True
        with inside not_end
        have "parse_rooms_loop lines i rooms = parse_rooms_loop lines (i + 1) rooms"
          by (subst parse_rooms_loop.simps [of lines i rooms])
             (simp only: Let_def if_True if_False simp_thms)
        with less.prems have "parse_rooms_loop lines (i + 1) rooms = Inr (j, r)"
          by simp
        moreover have "length lines - (i + 1) < length lines - i"
          using inside by simp
        ultimately have "i + 1 \<le> j"
          by (rule less.hyps [rotated])
        then show ?thesis by simp
      next
        case header: False
        show ?thesis
        proof (cases "i + 1 < length lines")
          case False
          with inside not_end header
          have "parse_rooms_loop lines i rooms = Inl IndexError"
            by (subst parse_rooms_loop.simps [of lines i rooms])
               (simp only: Let_def if_True if_False simp_thms)
          with less.prems show ?thesis by simp
        next
          case True
          from parse_rooms_loop_room [OF inside not_end header True, of rooms]
          obtain k room where k: "i < k"
            and eq: "parse_rooms_loop lines i rooms =
                     parse_rooms_loop lines k (AList.update (drop 1 (py_strip (lines ! i))) room rooms)"
            by blast
          from eq less.prems
          have "parse_rooms_loop lines k (AList.update (drop 1 (py_strip (lines ! i))) room rooms)
                = Inr (j, r)"
            by simp
          moreover have "length lines - k < length lines - i"
            using inside k by simp
          ultimately have "k \<le> j"
            by (rule less.hyps [rotated])
          with k show ?thesis by simp
        qed
      qed
    qed
  qed
qed

text \<open>
  \<open>parse_entities\<close>. The inner loop moves on to the next line that starts with \<open>#\<close>; the
  name line is read unguarded, as the title line of a room is.
\<close>

function skip_to_hash :: "string list \<Rightarrow> nat \<Rightarrow> nat" where
  "skip_to_hash lines i =
     (if i < length lines \<and> \<not> py_startswith (py_strip (lines ! i)) ''#''
      then skip_to_hash lines (i + 1)
      else i)"
  by pat_completeness auto
termination
  by (relation "measure (\<lambda>(lines, i). length lines - i)") auto

declare skip_to_hash.simps [simp del]

lemma skip_to_hash_ge: "i \<le> skip_to_hash lines i"
proof (induction lines i rule: skip_to_hash.induct)
  case (1 lines i)
  then show ?case
    by (subst skip_to_hash.simps) (auto dest: Suc_leD)
qed

function parse_entities_loop ::
  "string list \<Rightarrow> nat \<Rightarrow> string \<Rightarrow> (string \<times> string) list
     \<Rightarrow> error + nat \<times> (string \<times> string) list" where
  "parse_entities_loop lines i sect out =
     (if i < length lines then
        let line = py_strip (lines ! i)
        in if line = ''#0'' then Inr (i + 1, out)
           else if \<not> py_startswith line ''#'' \<or> line = sect
           then parse_entities_loop lines (i + 1) sect out
           else
             let v = drop 1 line;
                 i1 = i + 1
             in if \<not> i1 < length lines then Inl IndexError
                else
                  let n = clean_tilde (lines ! i1);
                      n = (if n \<noteq> [] then n else py_lower sect @ '' '' @ v)
                  in parse_entities_loop lines (skip_to_hash lines i1) sect
                       (AList.update v n out)
      else Inr (i, out))"
  by pat_completeness auto
termination
proof (relation "measure (\<lambda>(lines, i, sect, out). length lines - i)")
  fix lines :: "string list" and i i1 :: nat and sect :: string
    and out out' :: "(string \<times> string) list"
  assume "i < length lines" and "i1 = i + 1"
  then show "((lines, skip_to_hash lines i1, sect, out'), lines, i, sect, out)
      \<in> measure (\<lambda>(lines, i, sect, out). length lines - i)"
    using skip_to_hash_ge [of i1 lines] by simp
qed auto

declare parse_entities_loop.simps [simp del]

definition parse_entities ::
  "string list \<Rightarrow> nat \<Rightarrow> string \<Rightarrow> error + nat \<times> (string \<times> string) list" where
  "parse_entities lines i sect = parse_entities_loop lines i sect []"

lemma parse_entities_loop_ge:
  "parse_entities_loop lines i sect out = Inr (j, r) \<Longrightarrow> i \<le> j"
proof (induction "length lines - i" arbitrary: i out rule: less_induct)
  case less
  show ?case
  proof (cases "i < length lines")
    case False
    with less.prems show ?thesis
      by (simp add: parse_entities_loop.simps [of lines i sect out])
  next
    case inside: True
    show ?thesis
    proof (cases "py_strip (lines ! i) = ''#0''")
      case True
      with less.prems inside show ?thesis
        by (simp add: parse_entities_loop.simps [of lines i sect out])
    next
      case not_end: False
      show ?thesis
      proof (cases "\<not> py_startswith (py_strip (lines ! i)) ''#'' \<or> py_strip (lines ! i) = sect")
        case True
        with inside not_end
        have "parse_entities_loop lines i sect out
              = parse_entities_loop lines (i + 1) sect out"
          by (subst parse_entities_loop.simps [of lines i sect out])
             (simp only: Let_def if_True if_False simp_thms)
        with less.prems have "parse_entities_loop lines (i + 1) sect out = Inr (j, r)"
          by simp
        moreover have "length lines - (i + 1) < length lines - i"
          using inside by simp
        ultimately have "i + 1 \<le> j"
          by (rule less.hyps [rotated])
        then show ?thesis by simp
      next
        case header: False
        show ?thesis
        proof (cases "i + 1 < length lines")
          case False
          with inside not_end header
          have "parse_entities_loop lines i sect out = Inl IndexError"
            by (subst parse_entities_loop.simps [of lines i sect out])
               (simp only: Let_def if_True if_False simp_thms)
          with less.prems show ?thesis by simp
        next
          case True
          let ?k = "skip_to_hash lines (i + 1)"
          have k: "i < ?k"
            using skip_to_hash_ge [of "i + 1" lines] by simp
          from inside not_end header True
          have "\<exists>out'. parse_entities_loop lines i sect out
                       = parse_entities_loop lines ?k sect out'"
            by (subst parse_entities_loop.simps [of lines i sect out])
               (simp only: Let_def if_True if_False simp_thms, blast)
          then obtain out' where
            "parse_entities_loop lines i sect out = parse_entities_loop lines ?k sect out'"
            by blast
          with less.prems have "parse_entities_loop lines ?k sect out' = Inr (j, r)"
            by simp
          moreover have "length lines - ?k < length lines - i"
            using inside k by simp
          ultimately have "?k \<le> j"
            by (rule less.hyps [rotated])
          with k show ?thesis by simp
        qed
      qed
    qed
  qed
qed

text \<open>
  \<open>parse_resets\<close>. The two dictionaries are changed in place in the source and returned
  here. \<open>room\<close> is the room of the last \<open>M\<close> or \<open>O\<close> reset; \<open>and room\<close> asks that it is
  neither \<open>None\<close> nor empty.
\<close>

function parse_resets_loop ::
  "string list \<Rightarrow> nat \<Rightarrow> string option \<Rightarrow> (string \<times> Mob) list \<Rightarrow> (string \<times> Item) list
     \<Rightarrow> nat \<times> (string \<times> Mob) list \<times> (string \<times> Item) list" where
  "parse_resets_loop lines i room mobs items =
     (if i < length lines then
        let line = py_strip (lines ! i)
        in if line = ''S'' then (i + 1, mobs, items)
           else
             let parts = py_split_ws line;
                 code = (if parts \<noteq> [] then parts ! 0 else [])
             in if code = ''M'' \<and> length parts \<ge> 5 \<and> has_key mobs (parts ! 2) then
                  parse_resets_loop lines (i + 1) (Some (parts ! 4))
                    (AList.map_entry (parts ! 2)
                       (\<lambda>m. m\<lparr>Mob.room_vnum := Some (parts ! 4)\<rparr>) mobs)
                    items
                else if code = ''O'' \<and> length parts \<ge> 4 \<and> has_key items (parts ! 2) then
                  parse_resets_loop lines (i + 1) (Some (parts ! 3)) mobs
                    (AList.map_entry (parts ! 2)
                       (\<lambda>it. it\<lparr>Item.room_vnum := Some (parts ! 3)\<rparr>) items)
                else if code = ''G'' \<and> length parts \<ge> 3 \<and> room \<noteq> None \<and> room \<noteq> Some []
                        \<and> has_key items (parts ! 2) then
                  parse_resets_loop lines (i + 1) room mobs
                    (AList.map_entry (parts ! 2) (\<lambda>it. it\<lparr>Item.room_vnum := room\<rparr>) items)
                else parse_resets_loop lines (i + 1) room mobs items
      else (i, mobs, items))"
  by pat_completeness auto
termination
  by (relation "measure (\<lambda>(lines, i, room, mobs, items). length lines - i)") auto

declare parse_resets_loop.simps [simp del]

definition parse_resets ::
  "string list \<Rightarrow> nat \<Rightarrow> (string \<times> Mob) list \<Rightarrow> (string \<times> Item) list
     \<Rightarrow> nat \<times> (string \<times> Mob) list \<times> (string \<times> Item) list" where
  "parse_resets lines i mobs items = parse_resets_loop lines i None mobs items"

lemma parse_resets_loop_ge: "i \<le> fst (parse_resets_loop lines i room mobs items)"
proof (induction lines i room mobs items rule: parse_resets_loop.induct)
  case (1 lines i room mobs items)
  let ?line = "py_strip (lines ! i)"
  let ?parts = "py_split_ws ?line"
  let ?code = "if ?parts \<noteq> [] then ?parts ! 0 else []"
  let ?M = "?code = ''M'' \<and> length ?parts \<ge> 5 \<and> has_key mobs (?parts ! 2)"
  let ?O = "?code = ''O'' \<and> length ?parts \<ge> 4 \<and> has_key items (?parts ! 2)"
  let ?G = "?code = ''G'' \<and> length ?parts \<ge> 3 \<and> room \<noteq> None \<and> room \<noteq> Some []
            \<and> has_key items (?parts ! 2)"
  note unfold = parse_resets_loop.simps [of lines i room mobs items]
  show ?case
  proof (cases "i < length lines")
    case False
    then show ?thesis by (simp add: unfold)
  next
    case inside: True
    show ?thesis
    proof (cases "?line = ''S''")
      case True
      with inside show ?thesis by (simp add: unfold)
    next
      case not_S: False
      have "\<exists>room' mobs' items'.
              parse_resets_loop lines i room mobs items
                = parse_resets_loop lines (i + 1) room' mobs' items'
              \<and> i + 1 \<le> fst (parse_resets_loop lines (i + 1) room' mobs' items')"
      proof (cases ?M)
        case M: True
        from "1.IH"(1) [OF inside refl not_S refl refl M] inside not_S M show ?thesis
          by (subst unfold) (simp only: Let_def if_True if_False simp_thms, blast)
      next
        case not_M: False
        show ?thesis
        proof (cases ?O)
          case O: True
          from "1.IH"(2) [OF inside refl not_S refl refl not_M O] inside not_S not_M O
          show ?thesis
            by (subst unfold) (simp only: Let_def if_True if_False simp_thms, blast)
        next
          case not_O: False
          show ?thesis
          proof (cases ?G)
            case G: True
            from "1.IH"(3) [OF inside refl not_S refl refl not_M not_O G]
              inside not_S not_M not_O G
            show ?thesis
              by (subst unfold) (simp only: Let_def if_True if_False simp_thms, blast)
          next
            case not_G: False
            from "1.IH"(4) [OF inside refl not_S refl refl not_M not_O not_G]
              inside not_S not_M not_O not_G
            show ?thesis
              by (subst unfold) (simp only: Let_def if_True if_False simp_thms, blast)
          qed
        qed
      qed
      then show ?thesis by auto
    qed
  qed
qed

text \<open>
  The loop of \<open>parse_area\<close> over the sections of a file. A sub-parser hands back the index
  at which to go on, which lies behind the section's header line.
\<close>

lemma parse_rooms_ge: "parse_rooms lines i = Inr (j, r) \<Longrightarrow> i \<le> j"
  unfolding parse_rooms_def by (rule parse_rooms_loop_ge)

lemma parse_entities_ge: "parse_entities lines i sect = Inr (j, r) \<Longrightarrow> i \<le> j"
  unfolding parse_entities_def by (rule parse_entities_loop_ge)

lemma parse_resets_ge: "parse_resets lines i mobs items = (j, r) \<Longrightarrow> i \<le> j"
  unfolding parse_resets_def
  using parse_resets_loop_ge [of i lines None mobs items] by simp

function parse_sections ::
  "string list \<Rightarrow> nat \<Rightarrow> (string \<times> Room) list \<Rightarrow> (string \<times> Mob) list \<Rightarrow> (string \<times> Item) list
     \<Rightarrow> error + (string \<times> Room) list \<times> (string \<times> Mob) list \<times> (string \<times> Item) list" where
  "parse_sections lines i rooms mobs items =
     (if i < length lines then
        let s = py_strip (lines ! i)
        in if s = ''#ROOMS'' then
             (case parse_rooms lines (i + 1) of
                Inl e \<Rightarrow> Inl e
              | Inr (j, r) \<Rightarrow> parse_sections lines j (dict_update rooms r) mobs items)
           else if s = ''#MOBILES'' then
             (case parse_entities lines (i + 1) ''#MOBILES'' of
                Inl e \<Rightarrow> Inl e
              | Inr (j, m) \<Rightarrow>
                  parse_sections lines j rooms
                    (dict_update mobs
                       (dict_of (map (\<lambda>(k, v). (k, \<lparr>Mob.vnum = k, name = v, room_vnum = None\<rparr>)) m)))
                    items)
           else if s = ''#OBJECTS'' then
             (case parse_entities lines (i + 1) ''#OBJECTS'' of
                Inl e \<Rightarrow> Inl e
              | Inr (j, ob) \<Rightarrow>
                  parse_sections lines j rooms mobs
                    (dict_update items
                       (dict_of (map (\<lambda>(k, v). (k, \<lparr>Item.vnum = k, name = v, room_vnum = None\<rparr>)) ob))))
           else if s = ''#RESETS'' then
             (case parse_resets lines (i + 1) mobs items of
                (j, mobs', items') \<Rightarrow> parse_sections lines j rooms mobs' items')
           else parse_sections lines (i + 1) rooms mobs items
      else Inr (rooms, mobs, items))"
  by pat_completeness auto
termination
  by (relation "measure (\<lambda>(lines, i, rooms, mobs, items). length lines - i)")
     (auto dest!: parse_rooms_ge parse_entities_ge parse_resets_ge [OF sym])

declare parse_sections.simps [simp del]

text \<open>
  The second half of \<open>parse_area\<close>: the output dictionary. \<open>rid\<close> is the lambda of the
  source; the three definitions after it are its three \<open>for\<close> loops.
\<close>

definition rid :: "string \<Rightarrow> string" where
  "rid v = ''r'' @ v"

definition emit_rooms :: "(string \<times> Room) list \<Rightarrow> (string \<times> pyval) list" where
  "emit_rooms rooms =
     fold (\<lambda>(v, r) acc.
             AList.update (rid v)
               (PDict [(''title'', PStr (Room.title r)),
                       (''description'', PStr (Room.description r)),
                       (''exits'',
                        PDict (dict_of (map (\<lambda>(d, t). (d, PStr (rid t)))
                                 (filter (\<lambda>(d, t). has_key rooms t) (Room.exits r)))))])
               acc)
       rooms []"

definition emit_mobs :: "(string \<times> Room) list \<Rightarrow> (string \<times> Mob) list \<Rightarrow> (string \<times> pyval) list" where
  "emit_mobs rooms mobs =
     fold (\<lambda>(v, m) acc.
             case Mob.room_vnum m of
               None \<Rightarrow> acc
             | Some rv \<Rightarrow>
                 if has_key rooms rv then
                   AList.update (''m'' @ v)
                     (PDict [(''name'', PStr (Mob.name m)), (''room'', PStr (rid rv)),
                             (''tier'', PStr ''standard''), (''level'', PInt 1)])
                     acc
                 else acc)
       mobs []"

definition emit_items :: "(string \<times> Room) list \<Rightarrow> (string \<times> Item) list \<Rightarrow> (string \<times> pyval) list" where
  "emit_items rooms items =
     fold (\<lambda>(v, it) acc.
             let kw = hd (py_split_on CHR ''_'' (slug (Item.name it)));
                 kw = (if kw \<noteq> [] then kw else ''item'' @ v);
                 e = [(''displayName'', PStr (Item.name it)),
                      (''description'', PStr ''Imported from ROM area file.''),
                      (''keyword'', PStr kw)];
                 e = (case Item.room_vnum it of
                        None \<Rightarrow> e
                      | Some rv \<Rightarrow>
                          if has_key rooms rv then AList.update ''room'' (PStr (rid rv)) e else e)
             in AList.update (''i'' @ v) (PDict e) acc)
       items []"

text \<open>
  \<open>parse_area\<close>, from the lines of the file (\<open>read_text(...).splitlines()\<close>) and the stem
  of its name.
\<close>

definition parse_area :: "string \<Rightarrow> string list \<Rightarrow> error + pyval" where
  "parse_area stem lines =
     (case parse_sections lines 0 [] [] [] of
        Inl e \<Rightarrow> Inl e
      | Inr (rooms, mobs, items) \<Rightarrow>
          if rooms = [] then Inl ValueError
          else
            Inr (PDict [(''zone'', PStr (slug stem)), (''lifespan'', PInt 30),
                        (''startRoom'', PStr (rid (fst (hd rooms)))),
                        (''rooms'', PDict (emit_rooms rooms)),
                        (''mobs'', PDict (emit_mobs rooms mobs)),
                        (''items'', PDict (emit_items rooms items))]))"


section \<open>The area converter: output and the main program\<close>

text \<open>
  \<open>dump_yaml\<close>: the loop over the items of a dict, the loop over the elements of a list,
  and nothing for any other value.
\<close>

fun dump_yaml :: "pyval \<Rightarrow> nat \<Rightarrow> string list"
  and dump_items :: "(string \<times> pyval) list \<Rightarrow> nat \<Rightarrow> string list"
  and dump_elems :: "pyval list \<Rightarrow> nat \<Rightarrow> string list" where
  "dump_yaml (PDict kvs) indent = dump_items kvs indent"
| "dump_yaml (PList xs) indent = dump_elems xs indent"
| "dump_yaml (PStr s) indent = []"
| "dump_yaml (PInt n) indent = []"
| "dump_yaml (PBool b) indent = []"
| "dump_items [] indent = []"
| "dump_items ((k, v) # kvs) indent =
     (let pad = concat (replicate indent ''  '')
      in (case v of
            PDict d \<Rightarrow> (pad @ k @ '':'') # dump_yaml v (indent + 1)
          | PList l \<Rightarrow> (pad @ k @ '':'') # dump_yaml v (indent + 1)
          | PStr s \<Rightarrow> [pad @ k @ '': '' @ quote s]
          | PBool b \<Rightarrow> [pad @ k @ '': '' @ (if b then ''true'' else ''false'')]
          | PInt n \<Rightarrow> [pad @ k @ '': '' @ py_str_int n]))
     @ dump_items kvs indent"
| "dump_elems [] indent = []"
| "dump_elems (x # xs) indent =
     (let pad = concat (replicate indent ''  '')
      in (case x of
            PDict d \<Rightarrow> (pad @ ''-'') # dump_yaml x (indent + 1)
          | PList l \<Rightarrow> (pad @ ''-'') # dump_yaml x (indent + 1)
          | PStr s \<Rightarrow> [pad @ ''- '' @ quote s]
          | PBool b \<Rightarrow> [pad @ ''- '' @ (if b then ''True'' else ''False'')]
          | PInt n \<Rightarrow> [pad @ ''- '' @ py_str_int n]))
     @ dump_elems xs indent"

text \<open>
  \<open>main\<close>. Its input is what \<open>args.input_dir.glob("*.are")\<close> finds: for each file the stem
  of its name and its lines. Its result is the outcome and the \<open>write_text\<close> calls made,
  each a path below the output directory with the text written. A raised \<open>SystemExit\<close>
  with a message, like any exception that \<open>main\<close> lets escape, ends the process with
  status 1.
\<close>

fun convert_all ::
  "(string \<times> string list) list \<Rightarrow> (string \<times> string) list
     \<Rightarrow> (error + unit) \<times> (string \<times> string) list" where
  "convert_all [] written = (Inr (), written)"
| "convert_all ((stem, lines) # files) written =
     (case parse_area stem lines of
        Inl e \<Rightarrow> (Inl e, written)
      | Inr area \<Rightarrow>
          convert_all files
            (written @ [(slug stem @ ''.yaml'', py_join [LF] (dump_yaml area 0) @ [LF])]))"

definition main :: "(string \<times> string list) list \<Rightarrow> (error + unit) \<times> (string \<times> string) list" where
  "main found =
     (let files = sort_key (\<lambda>(stem, lines). (stem \<noteq> ''midgaard'', stem)) found
      in if files = [] then (Inl SystemExit, [])
         else convert_all files [])"

definition exit_status :: "error + unit \<Rightarrow> nat" where
  "exit_status r = (case r of Inl e \<Rightarrow> 1 | Inr u \<Rightarrow> 0)"

section \<open>The area converter: referential closure\<close>

text \<open>The items of the dict stored under key \<open>k\<close> of a dict; none if there is no such dict.\<close>

definition entries :: "pyval \<Rightarrow> string \<Rightarrow> (string \<times> pyval) list" where
  "entries d k = (case dict_get d k of Some (PDict kvs) \<Rightarrow> kvs | _ \<Rightarrow> [])"

text \<open>A value names a room of the output: it is a string and a key of the rooms map.\<close>

definition names_room :: "pyval \<Rightarrow> pyval \<Rightarrow> bool" where
  "names_room out v = (case v of PStr r \<Rightarrow> has_key (entries out ''rooms'') r | _ \<Rightarrow> False)"

text \<open>
  An output is closed over its rooms: every exit of every room leads to a room of the
  output, every mob has a room field that names one, and an item's room field, where
  there is one, names one.
\<close>

definition referentially_closed :: "pyval \<Rightarrow> bool" where
  "referentially_closed out \<longleftrightarrow>
     list_all (\<lambda>(rk, room). list_all (\<lambda>(d, t). names_room out t) (entries room ''exits''))
       (entries out ''rooms'')
   \<and> list_all (\<lambda>(mk, mob). case dict_get mob ''room'' of
                               Some t \<Rightarrow> names_room out t | None \<Rightarrow> False)
       (entries out ''mobs'')
   \<and> list_all (\<lambda>(ik, item). case dict_get item ''room'' of
                                Some t \<Rightarrow> names_room out t | None \<Rightarrow> True)
       (entries out ''items'')"

text \<open>The room an entity was put in by a reset is one of the parsed rooms.\<close>

definition room_parsed :: "(string \<times> Room) list \<Rightarrow> string option \<Rightarrow> bool" where
  "room_parsed rooms rv = (case rv of None \<Rightarrow> False | Some v \<Rightarrow> has_key rooms v)"

text \<open>The path that \<open>main\<close> writes the conversion of a file to.\<close>

definition output_name :: "string \<times> string list \<Rightarrow> string" where
  "output_name f = slug (fst f) @ ''.yaml''"

definition sort_files :: "(string \<times> string list) list \<Rightarrow> (string \<times> string list) list" where
  "sort_files found = sort_key (\<lambda>(stem, lines). (stem \<noteq> ''midgaard'', stem)) found"

text \<open>The entry that each of the three loops of \<open>parse_area\<close> stores for an element.\<close>

definition room_entry :: "(string \<times> Room) list \<Rightarrow> string \<times> Room \<Rightarrow> pyval" where
  "room_entry rooms x =
     PDict [(''title'', PStr (Room.title (snd x))),
            (''description'', PStr (Room.description (snd x))),
            (''exits'',
             PDict (dict_of (map (\<lambda>(d, t). (d, PStr (rid t)))
                      (filter (\<lambda>(d, t). has_key rooms t) (Room.exits (snd x))))))]"

definition mob_entry :: "string \<times> Mob \<Rightarrow> pyval" where
  "mob_entry x =
     PDict [(''name'', PStr (Mob.name (snd x))),
            (''room'', PStr (rid (the (Mob.room_vnum (snd x))))),
            (''tier'', PStr ''standard''), (''level'', PInt 1)]"

definition item_entry :: "(string \<times> Room) list \<Rightarrow> string \<times> Item \<Rightarrow> pyval" where
  "item_entry rooms x =
     (let kw = hd (py_split_on CHR ''_'' (slug (Item.name (snd x))));
          kw = (if kw \<noteq> [] then kw else ''item'' @ fst x);
          e = [(''displayName'', PStr (Item.name (snd x))),
               (''description'', PStr ''Imported from ROM area file.''),
               (''keyword'', PStr kw)]
      in PDict (if room_parsed rooms (Item.room_vnum (snd x))
                then AList.update ''room'' (PStr (rid (the (Item.room_vnum (snd x))))) e
                else e))"

text \<open>The conversion of a file succeeds, and the text that \<open>main\<close> then writes for it.\<close>

definition parses :: "string \<times> string list \<Rightarrow> bool" where
  "parses f = (case parse_area (fst f) (snd f) of Inr area \<Rightarrow> True | Inl e \<Rightarrow> False)"

definition written_text :: "string \<times> string list \<Rightarrow> string" where
  "written_text f =
     (case parse_area (fst f) (snd f) of
        Inr area \<Rightarrow> py_join [LF] (dump_yaml area 0) @ [LF]
      | Inl e \<Rightarrow> [])"

section \<open>Example inputs\<close>

text \<open>
  A connection for the examples: a line of chatter, a binary frame, a combined frame that
  ends in the prompt, and a lone prompt, one second apart.
\<close>

definition demo_ws :: Connection where
  "demo_ws = \<lparr>now = 0,
              inbox = [(1, Frame (Text ''You see a rat.'')), (2, Frame (Binary [])),
                       (3, Frame (Text (''A rat dies.'' @ [LF] @ ''> ''))), (4, Frame (Text ''> ''))],
              outbox = [], recv_calls = 0\<rparr>"

text \<open>A configuration that only ever kills, with looting every sixth kill.\<close>

definition cfg_kill_only :: SwarmConfig where
  "cfg_kill_only =
     \<lparr>url = ''ws://localhost:8080/ws'', clients = 50, minutes = 5, ramp_per_sec = 10,
      verbose = False, move_weight = Finite 0 0, kill_weight = Finite 1 0,
      look_weight = Finite 0 0,
      moves = [''north'', ''south''], avoid_immediate_backtrack = True,
      get_lantern = True, get_every = 6, think_min_ms = 250, think_max_ms = 900,
      progress_every_s = 10, connect_timeout_s = 10, io_timeout_s = 30\<rparr>"

text \<open>The same configuration with every weight zero.\<close>

definition cfg_no_weights :: SwarmConfig where
  "cfg_no_weights = cfg_kill_only\<lparr>kill_weight := Finite 0 0\<rparr>"

text \<open>
  The weights 0.3, 0.7 and 0: the float \<open>0.3\<close> is \<open>5404319552844595 / 2 ^ 54\<close> and the
  float \<open>0.7\<close> is \<open>3152519739159347 / 2 ^ 52\<close>. And the weights 1, 0 and 1.
\<close>

definition cfg_rounding :: SwarmConfig where
  "cfg_rounding =
     cfg_kill_only\<lparr>move_weight := Finite 5404319552844595 (- 54),
                    kill_weight := Finite 3152519739159347 (- 52)\<rparr>"

definition cfg_no_kill :: SwarmConfig where
  "cfg_no_kill = cfg_kill_only\<lparr>move_weight := Finite 1 0, kill_weight := Finite 0 0,
                                look_weight := Finite 1 0\<rparr>"

text \<open>A generator for the examples.\<close>

definition demo_rng :: rng where
  "demo_rng i = 37 * i + 5"

text \<open>
  A bot at the prompt with five kills so far; the server will answer the next two
  commands, each answer ending in the prompt.
\<close>

definition demo_bot :: Bot where
  "demo_bot =
     \<lparr>bot_ws = \<lparr>now = 10,
                inbox = [(11, Frame (Text (''The rat dies.'' @ [CR, LF] @ ''> ''))),
                         (12, Frame (Text (''You pick up a lantern.'' @ [CR, LF] @ ''> '')))],
                outbox = [''look'' @ [LF]], recv_calls = 7\<rparr>,
      bot_ps = \<lparr>at_prompt = True\<rparr>,
      bot_stats = \<lparr>kills = 5, moves = 2, gets = 0\<rparr>,
      bot_last_move = Some ''north'',
      bot_rng = const_rng 0\<rparr>"

text \<open>
  A small area file: two mobs, two objects, two rooms and the resets. The first room has
  an exit to the second and one to a room that is not in the file; the second mob is put
  in a room that is not in the file; the second object is put nowhere.
\<close>

definition demo_area :: "string list" where
  "demo_area =
     [''#AREA demo~'',
      ''#MOBILES'', ''#3000'', ''rat~'', ''#3005'', ''~'', ''#0'',
      ''#OBJECTS'', ''#3010'', ''a Brass lantern~'', ''#3011'', ''coin~'', ''#0'',
      ''#ROOMS'',
      ''#3001'', ''The Temple~'', ''A big temple.~'', ''0 0 0'',
      ''D0'', ''~'', ''door~'', ''0 -1 3002'',
      ''D2'', ''~'', ''~'', ''0 -1 9999'',
      ''S'',
      ''#3002'', ''Hall~'', ''~'', ''0 0 0'',
      ''D7'', ''~'', ''~'', ''0 0 3001'',
      ''S'',
      ''#0'',
      ''#RESETS'', ''M 0 3000 1 3001'', ''G 0 3010 1'', ''M 0 3005 1 7777'', ''S'',
      ''#$'']"

text \<open>What \<open>parse_area\<close> makes of it.\<close>

definition demo_out :: pyval where
  "demo_out =
     PDict
       [(''zone'', PStr ''demo''), (''lifespan'', PInt 30),
        (''startRoom'', PStr ''r3001''),
        (''rooms'',
         PDict
          [(''r3001'',
            PDict
             [(''title'', PStr ''The Temple''),
              (''description'', PStr ''A big temple.''),
              (''exits'', PDict [(''north'', PStr ''r3002'')])]),
           (''r3002'',
            PDict
             [(''title'', PStr ''Hall''),
              (''description'', PStr ''(no description)''),
              (''exits'', PDict [(''dir_7'', PStr ''r3001'')])])]),
        (''mobs'',
         PDict
          [(''m3000'',
            PDict
             [(''name'', PStr ''rat''), (''room'', PStr ''r3001''),
              (''tier'', PStr ''standard''), (''level'', PInt 1)])]),
        (''items'',
         PDict
          [(''i3010'',
            PDict
             [(''displayName'', PStr ''a Brass lantern''),
              (''description'', PStr ''Imported from ROM area file.''),
              (''keyword'', PStr ''a''), (''room'', PStr ''r3001'')]),
           (''i3011'',
            PDict
             [(''displayName'', PStr ''coin''),
              (''description'', PStr ''Imported from ROM area file.''),
              (''keyword'', PStr ''coin'')])])]"

text \<open>An input directory with two area files, and one whose only area file has no rooms.\<close>

definition demo_found :: "(string \<times> string list) list" where
  "demo_found = [(''zeta'', demo_area), (''midgaard'', demo_area)]"

definition roomless_found :: "(string \<times> string list) list" where
  "roomless_found = [(''empty'', [''#AREA empty~'', ''#$''])]"

section \<open>Prompt detection: properties\<close>

lemma py_split_on_nonempty: "py_split_on sep s \<noteq> []"
  by (induction s) (auto split: list.splits)

lemma takeWhile_snoc:
  "takeWhile P (xs @ [x]) =
     (if \<forall>y \<in> set xs. P y then (if P x then xs @ [x] else xs) else takeWhile P xs)"
  by (induction xs) auto

lemma py_split_on_no_sep: "sep \<notin> set s \<Longrightarrow> py_split_on sep s = [s]"
  by (induction s) auto

lemma py_split_on_sep: "sep \<in> set s \<Longrightarrow> \<exists>p q qs. py_split_on sep s = p # q # qs"
proof (induction s)
  case Nil
  then show ?case by simp
next
  case (Cons c cs)
  show ?case
  proof (cases "c = sep")
    case True
    then show ?thesis
      using py_split_on_nonempty [of sep cs] by (cases "py_split_on sep cs") auto
  next
    case False
    with Cons.prems have "sep \<in> set cs" by simp
    with Cons.IH obtain p q qs where "py_split_on sep cs = p # q # qs" by blast
    with False show ?thesis by simp
  qed
qed

lemma last_py_split_on: "last (py_split_on sep s) = rev (takeWhile (\<lambda>c. c \<noteq> sep) (rev s))"
proof (induction s)
  case Nil
  show ?case by simp
next
  case (Cons c cs)
  show ?case
  proof (cases "sep \<in> set cs")
    case True
    then obtain p q qs where sp: "py_split_on sep cs = p # q # qs"
      using py_split_on_sep by blast
    have l: "last (py_split_on sep (c # cs)) = last (py_split_on sep cs)"
      using sp by simp
    have "takeWhile (\<lambda>c. c \<noteq> sep) (rev cs @ [c]) = takeWhile (\<lambda>c. c \<noteq> sep) (rev cs)"
      using True by (auto simp: takeWhile_snoc)
    with Cons.IH l show ?thesis
      by simp
  next
    case False
    then have "py_split_on sep cs = [cs]"
      by (rule py_split_on_no_sep)
    with False show ?thesis
      by (simp add: takeWhile_snoc)
  qed
qed

lemma looks_like_prompt_spec: "looks_like_prompt frame = spec_is_prompt frame"
proof (cases "frame = []")
  case True
  then show ?thesis
    by (simp add: looks_like_prompt_def spec_is_prompt_def last_line_def py_remove_def
        py_strip_def py_rstrip_def py_lstrip_def)
next
  case False
  then show ?thesis
    by (simp add: looks_like_prompt_def spec_is_prompt_def last_line_def Let_def
        py_split_on_nonempty last_py_split_on)
qed

lemmas prompt_eval_defs =
  spec_is_prompt_def last_line_def py_remove_def py_strip_def py_rstrip_def py_lstrip_def
  is_space_def is_csi_param_def is_ascii_letter_def


lemma strip_ansi_csi:
  assumes "\<forall>c \<in> set ps. is_csi_param c" and "is_ascii_letter l"
  shows "strip_ansi (ESC # CHR ''['' # ps @ l # rest) = strip_ansi rest"
proof -
  have "\<not> is_csi_param l"
    using assms(2) by (auto simp: is_csi_param_def is_ascii_letter_def)
  with assms(1) have "dropWhile is_csi_param (ps @ l # rest) = l # rest"
    by (simp add: dropWhile_append2)
  with assms(2) show ?thesis
    by simp
qed

lemma strip_ansi_no_esc: "ESC \<notin> set s \<Longrightarrow> strip_ansi s = s"
  by (induction s) auto

text \<open>
  C1. A frame marks the prompt iff, once its CSI sequences and carriage returns are gone,
  the whole text or its last line trims to the single character \<open>>\<close>; observing a frame
  sets the state to ready exactly in that case. The coloured prompt
  \<open>ESC[32m> ESC[0m\<close> is a prompt; \<open>> go north\<close> and the empty frame are not.
\<close>

theorem looks_like_prompt_iff:
  "looks_like_prompt frame = spec_is_prompt frame
   \<and> observe_incoming ps frame = (if spec_is_prompt frame then ps\<lparr>at_prompt := True\<rparr> else ps)
   \<and> looks_like_prompt (ESC # ''[32m> '' @ ESC # ''[0m'')
   \<and> \<not> looks_like_prompt ''> go north''
   \<and> \<not> looks_like_prompt []"
proof -
  have "looks_like_prompt (ESC # ''[32m> '' @ ESC # ''[0m'')"
    by (simp add: looks_like_prompt_spec prompt_eval_defs)
  moreover have "\<not> looks_like_prompt ''> go north''"
    by (simp add: looks_like_prompt_spec prompt_eval_defs)
  moreover have "\<not> looks_like_prompt []"
    by (simp add: looks_like_prompt_def)
  ultimately show ?thesis
    by (simp add: looks_like_prompt_spec observe_incoming_def)
qed

theorem looks_like_prompt_iff_witness:
  "spec_is_prompt (''Welcome!'' @ [CR, LF] @ ESC # ''[1;32m> '' @ ESC # ''[0m'')
   \<and> at_prompt (observe_incoming \<lparr>at_prompt = False\<rparr>
        (''Welcome!'' @ [CR, LF] @ ESC # ''[1;32m> '' @ ESC # ''[0m''))
   \<and> \<not> at_prompt (observe_incoming \<lparr>at_prompt = False\<rparr> ''You see a rat.'')"
  using looks_like_prompt_iff
          [of "''Welcome!'' @ [CR, LF] @ ESC # ''[1;32m> '' @ ESC # ''[0m''" "\<lparr>at_prompt = False\<rparr>"]
        looks_like_prompt_iff [of "''You see a rat.''" "\<lparr>at_prompt = False\<rparr>"]
  by (simp add: prompt_eval_defs)

lemma observe_all_ready: "at_prompt ps \<Longrightarrow> at_prompt (observe_all ps frames)"
  unfolding observe_all_def
  by (induction frames arbitrary: ps) (simp_all add: observe_incoming_def)

text \<open>
  C9. Observing a frame never clears the ready flag: it leaves the flag as it was or
  sets it. Once ready, the state stays ready through any further frames; of the two
  mutators only \<open>sent_command\<close> sets the flag to false.
\<close>

theorem observe_incoming_monotone:
  "(at_prompt (observe_incoming ps frame) = at_prompt ps \<or> at_prompt (observe_incoming ps frame))
   \<and> (at_prompt ps \<longrightarrow> at_prompt (observe_incoming ps frame))
   \<and> (at_prompt ps \<longrightarrow> at_prompt (observe_all ps frames))
   \<and> \<not> at_prompt (sent_command ps)"
  using observe_all_ready [of ps frames]
  by (simp add: observe_incoming_def sent_command_def)

theorem observe_incoming_monotone_witness:
  "at_prompt \<lparr>at_prompt = True\<rparr>
   \<and> at_prompt (observe_incoming \<lparr>at_prompt = True\<rparr> ''The rat bites you.'')
   \<and> at_prompt (observe_all \<lparr>at_prompt = True\<rparr> [''The rat bites you.'', ''You flee.'', []])
   \<and> \<not> at_prompt (sent_command \<lparr>at_prompt = True\<rparr>)"
  using observe_incoming_monotone
          [of "\<lparr>at_prompt = True\<rparr>" "''The rat bites you.''" "[''The rat bites you.'', ''You flee.'', []]"]
  by simp

section \<open>I/O primitives: properties\<close>

lemma recv_with_timeout_Inr:
  assumes "recv_with_timeout ws r = (Inr m, ws')"
  shows "\<exists>t. inbox ws = (t, Frame m) # inbox ws' \<and> recv_calls ws' = Suc (recv_calls ws)
           \<and> outbox ws' = outbox ws"
  using assms
  by (auto simp: recv_with_timeout_def Let_def
      split: list.splits if_splits delivery.splits)

lemma recv_with_timeout_Inl:
  assumes "recv_with_timeout ws r = (Inl e, ws')"
  shows "inbox ws' = inbox ws \<and> recv_calls ws' = Suc (recv_calls ws) \<and> outbox ws' = outbox ws
         \<and> (e = TimeoutError \<longrightarrow> now ws' = now ws + max 0 r)"
  using assms
  by (auto simp: recv_with_timeout_def Let_def
      split: list.splits if_splits delivery.splits)

lemma observe_all_Cons: "observe_all ps (f # fs) = observe_all (observe_incoming ps f) fs"
  by (simp add: observe_all_def)

lemma observe_all_Nil: "observe_all ps [] = ps"
  by (simp add: observe_all_def)

lemma recv_until_prompt_loop_consumes:
  assumes "recv_until_prompt_loop ws ps deadline = (r, ws', ps')" and "\<not> at_prompt ps"
  shows "\<exists>consumed.
           inbox ws = consumed @ inbox ws'
         \<and> list_all (\<lambda>x. snd x \<noteq> Close) consumed
         \<and> ps' = observe_all ps (frame_texts consumed)
         \<and> \<not> at_prompt (observe_all ps (frame_texts (butlast consumed)))
         \<and> (r = Inr () \<longleftrightarrow> at_prompt ps')
         \<and> (r = Inl TimeoutError \<longrightarrow> deadline \<le> now ws')
         \<and> outbox ws' = outbox ws
         \<and> (recv_calls ws' = recv_calls ws + length consumed
              \<or> r \<noteq> Inr () \<and> recv_calls ws' = recv_calls ws + length consumed + 1)"
  using assms
proof (induction ws ps deadline arbitrary: r ws' ps' rule: recv_until_prompt_loop.induct)
  case (1 ws ps deadline)
  note eq = "1.prems"(1) [unfolded recv_until_prompt_loop.simps [of ws ps deadline] Let_def]
  note busy = "1.prems"(2)
  show ?case
  proof (cases "deadline - now ws \<le> 0")
    case True
    with eq have "r = Inl TimeoutError" "ws' = ws" "ps' = ps" by simp_all
    with True busy show ?thesis
      by (intro exI [of _ "[]"]) (simp add: observe_all_Nil)
  next
    case False
    obtain x w1 where rw: "recv_with_timeout ws (deadline - now ws) = (x, w1)"
      by (cases "recv_with_timeout ws (deadline - now ws)")
    show ?thesis
    proof (cases x)
      case (Inl e)
      with eq False rw have res: "r = Inl e" "ws' = w1" "ps' = ps" by simp_all
      from recv_with_timeout_Inl [OF rw [unfolded Inl]] False res busy show ?thesis
        by (intro exI [of _ "[]"]) (auto simp: observe_all_Nil)
    next
      case (Inr m)
      from recv_with_timeout_Inr [OF rw [unfolded Inr]] obtain t where
        w1: "inbox ws = (t, Frame m) # inbox w1" "recv_calls w1 = Suc (recv_calls ws)"
            "outbox w1 = outbox ws"
        by blast
      show ?thesis
      proof (cases m)
        case (Binary b)
        with eq False rw Inr have "recv_until_prompt_loop w1 ps deadline = (r, ws', ps')"
          by simp
        from "1.IH"(2) [OF refl False rw [symmetric] Inr Binary this busy]
        obtain consumed where c:
          "inbox w1 = consumed @ inbox ws'"
          "list_all (\<lambda>x. snd x \<noteq> Close) consumed"
          "ps' = observe_all ps (frame_texts consumed)"
          "\<not> at_prompt (observe_all ps (frame_texts (butlast consumed)))"
          "r = Inr () \<longleftrightarrow> at_prompt ps'"
          "r = Inl TimeoutError \<longrightarrow> deadline \<le> now ws'"
          "outbox ws' = outbox w1"
          "recv_calls ws' = recv_calls w1 + length consumed
             \<or> r \<noteq> Inr () \<and> recv_calls ws' = recv_calls w1 + length consumed + 1"
          by blast
        show ?thesis
          using c w1 Binary busy
          by (intro exI [of _ "(t, Frame m) # consumed"]) (auto simp: observe_all_Nil)
      next
        case (Text s)
        show ?thesis
        proof (cases "at_prompt (observe_incoming ps s)")
          case True
          with eq False rw Inr Text
          have res: "r = Inr ()" "ws' = w1" "ps' = observe_incoming ps s" by simp_all
          show ?thesis
            using res w1 Text True busy
            by (intro exI [of _ "[(t, Frame m)]"])
              (simp add: observe_all_Nil observe_all_Cons)
        next
          case nready: False
          with eq False rw Inr Text
          have "recv_until_prompt_loop w1 (observe_incoming ps s) deadline = (r, ws', ps')"
            by simp
          from "1.IH"(1) [OF refl False rw [symmetric] Inr Text refl nready this nready]
          obtain consumed where c:
            "inbox w1 = consumed @ inbox ws'"
            "list_all (\<lambda>x. snd x \<noteq> Close) consumed"
            "ps' = observe_all (observe_incoming ps s) (frame_texts consumed)"
            "\<not> at_prompt (observe_all (observe_incoming ps s) (frame_texts (butlast consumed)))"
            "r = Inr () \<longleftrightarrow> at_prompt ps'"
            "r = Inl TimeoutError \<longrightarrow> deadline \<le> now ws'"
            "outbox ws' = outbox w1"
            "recv_calls ws' = recv_calls w1 + length consumed
               \<or> r \<noteq> Inr () \<and> recv_calls ws' = recv_calls w1 + length consumed + 1"
            by blast
          show ?thesis
            using c w1 Text busy
            by (intro exI [of _ "(t, Frame m) # consumed"])
              (auto simp: observe_all_Nil observe_all_Cons)
        qed
      qed
    qed
  qed
qed


text \<open>
  C2. With the state ready, \<open>recv_until_prompt\<close> returns at once: the connection (its
  inbox, its count of receive calls, its clock) and the state are unchanged. With the
  state busy it takes items from the head of the inbox, observing each text frame, and
  stops at the first frame that makes the state ready, or with an error; no proper
  prefix of what it took makes the state ready, it sends nothing, every item taken is one
  receive call (a failing last call takes nothing), and a \<open>TimeoutError\<close> leaves the clock
  at or past the deadline.
\<close>

theorem recv_until_prompt_ready_no_io:
  "(at_prompt ps \<longrightarrow> recv_until_prompt ws ps timeout_s = (Inr (), ws, ps))
   \<and> (\<not> at_prompt ps \<longrightarrow>
        (\<exists>consumed.
            inbox ws = consumed @ inbox (fst (snd (recv_until_prompt ws ps timeout_s)))
          \<and> list_all (\<lambda>x. snd x \<noteq> Close) consumed
          \<and> snd (snd (recv_until_prompt ws ps timeout_s)) = observe_all ps (frame_texts consumed)
          \<and> \<not> at_prompt (observe_all ps (frame_texts (butlast consumed)))
          \<and> (fst (recv_until_prompt ws ps timeout_s) = Inr ()
               \<longleftrightarrow> at_prompt (snd (snd (recv_until_prompt ws ps timeout_s))))
          \<and> (fst (recv_until_prompt ws ps timeout_s) = Inl TimeoutError
               \<longrightarrow> now ws + timeout_s \<le> now (fst (snd (recv_until_prompt ws ps timeout_s))))
          \<and> outbox (fst (snd (recv_until_prompt ws ps timeout_s))) = outbox ws
          \<and> (recv_calls (fst (snd (recv_until_prompt ws ps timeout_s)))
                = recv_calls ws + length consumed
              \<or> fst (recv_until_prompt ws ps timeout_s) \<noteq> Inr ()
                \<and> recv_calls (fst (snd (recv_until_prompt ws ps timeout_s)))
                    = recv_calls ws + length consumed + 1)))"
proof (intro conjI impI)
  assume "at_prompt ps"
  then show "recv_until_prompt ws ps timeout_s = (Inr (), ws, ps)"
    by (simp add: recv_until_prompt_def)
next
  assume busy: "\<not> at_prompt ps"
  obtain r ws' ps' where res: "recv_until_prompt ws ps timeout_s = (r, ws', ps')"
    by (cases "recv_until_prompt ws ps timeout_s")
  with busy have "recv_until_prompt_loop ws ps (now ws + timeout_s) = (r, ws', ps')"
    by (simp add: recv_until_prompt_def)
  from recv_until_prompt_loop_consumes [OF this busy] res
  show "\<exists>consumed.
            inbox ws = consumed @ inbox (fst (snd (recv_until_prompt ws ps timeout_s)))
          \<and> list_all (\<lambda>x. snd x \<noteq> Close) consumed
          \<and> snd (snd (recv_until_prompt ws ps timeout_s)) = observe_all ps (frame_texts consumed)
          \<and> \<not> at_prompt (observe_all ps (frame_texts (butlast consumed)))
          \<and> (fst (recv_until_prompt ws ps timeout_s) = Inr ()
               \<longleftrightarrow> at_prompt (snd (snd (recv_until_prompt ws ps timeout_s))))
          \<and> (fst (recv_until_prompt ws ps timeout_s) = Inl TimeoutError
               \<longrightarrow> now ws + timeout_s \<le> now (fst (snd (recv_until_prompt ws ps timeout_s))))
          \<and> outbox (fst (snd (recv_until_prompt ws ps timeout_s))) = outbox ws
          \<and> (recv_calls (fst (snd (recv_until_prompt ws ps timeout_s)))
                = recv_calls ws + length consumed
              \<or> fst (recv_until_prompt ws ps timeout_s) \<noteq> Inr ()
                \<and> recv_calls (fst (snd (recv_until_prompt ws ps timeout_s)))
                    = recv_calls ws + length consumed + 1)"
    by simp
qed

lemmas io_eval_defs =
  recv_until_prompt_def recv_until_prompt_loop.simps recv_with_timeout_def
  ws_send_def connection_lost_def send_line_def send_and_wait_prompt_def
  observe_incoming_def observe_all_def sent_command_def looks_like_prompt_spec
  prompt_eval_defs Let_def

theorem recv_until_prompt_ready_no_io_witness:
  "recv_until_prompt demo_ws \<lparr>at_prompt = True\<rparr> 30 = (Inr (), demo_ws, \<lparr>at_prompt = True\<rparr>)
   \<and> recv_until_prompt demo_ws \<lparr>at_prompt = False\<rparr> 30
       = (Inr (), demo_ws\<lparr>now := 3, inbox := [(4, Frame (Text ''> ''))], recv_calls := 3\<rparr>,
          \<lparr>at_prompt = True\<rparr>)
   \<and> recv_until_prompt demo_ws \<lparr>at_prompt = False\<rparr> 2
       = (Inl TimeoutError, demo_ws\<lparr>now := 2, inbox := tl (inbox demo_ws), recv_calls := 2\<rparr>,
          \<lparr>at_prompt = False\<rparr>)"
  using recv_until_prompt_ready_no_io [of "\<lparr>at_prompt = True\<rparr>" demo_ws 30]
        recv_until_prompt_ready_no_io [of "\<lparr>at_prompt = False\<rparr>" demo_ws 30]
  by (simp add: demo_ws_def io_eval_defs)

text \<open>
  C3. On a live connection \<open>send_line\<close> transmits the line followed by a line feed and
  leaves the state busy, whatever the state was; it never receives, and the clock does
  not move. Whenever it returns normally the state is busy.
\<close>

theorem send_line_busy:
  "send_line ws ps line =
     (if connection_lost ws then (Inl ConnectionClosed, ws, ps)
      else (Inr (), ws\<lparr>outbox := outbox ws @ [line @ [LF]]\<rparr>, ps\<lparr>at_prompt := False\<rparr>))
   \<and> (fst (send_line ws ps line) = Inr () \<longrightarrow> \<not> at_prompt (snd (snd (send_line ws ps line))))
   \<and> inbox (fst (snd (send_line ws ps line))) = inbox ws
   \<and> recv_calls (fst (snd (send_line ws ps line))) = recv_calls ws
   \<and> now (fst (snd (send_line ws ps line))) = now ws"
  by (simp add: send_line_def ws_send_def sent_command_def)

theorem send_line_busy_witness:
  "send_line demo_ws \<lparr>at_prompt = True\<rparr> ''kill rat''
     = (Inr (), demo_ws\<lparr>outbox := [''kill rat'' @ [LF]]\<rparr>, \<lparr>at_prompt = False\<rparr>)
   \<and> send_line demo_ws \<lparr>at_prompt = False\<rparr> ''look''
     = (Inr (), demo_ws\<lparr>outbox := [''look'' @ [LF]]\<rparr>, \<lparr>at_prompt = False\<rparr>)"
  using send_line_busy [of demo_ws "\<lparr>at_prompt = True\<rparr>" "''kill rat''"]
        send_line_busy [of demo_ws "\<lparr>at_prompt = False\<rparr>" "''look''"]
  by (simp add: demo_ws_def connection_lost_def)

section \<open>Float arithmetic: properties\<close>

text \<open>Some sums, differences and products, as the machine computes them.\<close>

lemma float_examples:
  "fadd (Finite 5404319552844595 (- 54)) (Finite 3152519739159347 (- 52)) = Finite 4503599627370496 (- 52)"
  "fsub (Finite (2 ^ 53 - 1) (- 53)) (Finite 5404319552844595 (- 54)) = Finite 6305039478318694 (- 53)"
  "fmul (Finite (2 ^ 53 - 1) (- 53)) (Finite 1 (- 1074)) = Finite 1 (- 1074)"
  "fadd (Finite (2 ^ 53 - 1) 971) (Finite (2 ^ 53 - 1) 971) = PInf"
  "fadd (Finite 1 0) (Finite 1 (- 53)) = Finite 4503599627370496 (- 52)"
  "fadd (Finite 1 0) (Finite 3 (- 53)) = Finite 4503599627370498 (- 52)"
  by code_simp+

lemma bitlen_nonpos [simp]: "n \<le> 0 \<Longrightarrow> bitlen n = 0"
  by (simp add: bitlen.simps)

lemma bitlen_pos: "0 < n \<Longrightarrow> bitlen n = 1 + bitlen (n div 2)"
  by (subst bitlen.simps) simp

lemma bitlen_nonneg: "0 \<le> bitlen n"
proof (induction n rule: bitlen.induct)
  case (1 n)
  then show ?case
    by (cases "n \<le> 0") (simp_all add: bitlen_pos)
qed

lemma bitlen_less: "n < 2 ^ nat (bitlen n)"
proof (induction n rule: bitlen.induct)
  case (1 n)
  show ?case
  proof (cases "n \<le> 0")
    case True
    then show ?thesis by simp
  next
    case False
    with 1 have "n div 2 < 2 ^ nat (bitlen (n div 2))" by simp
    then have "n < 2 * 2 ^ nat (bitlen (n div 2))" by linarith
    moreover have "nat (1 + bitlen (n div 2)) = Suc (nat (bitlen (n div 2)))"
      using bitlen_nonneg [of "n div 2"] by simp
    ultimately show ?thesis
      using False by (simp add: bitlen_pos)
  qed
qed

lemma bitlen_le: "n < 2 ^ b \<Longrightarrow> bitlen n \<le> int b"
proof (induction n arbitrary: b rule: bitlen.induct)
  case (1 n)
  show ?case
  proof (cases "n \<le> 0")
    case True
    then show ?thesis by simp
  next
    case False
    with 1(2) obtain b' where b: "b = Suc b'"
      by (cases b) auto
    with 1(2) have "n div 2 < 2 ^ b'" by simp
    with 1(1) [OF False] have "bitlen (n div 2) \<le> int b'" by simp
    with False b show ?thesis by (simp add: bitlen_pos)
  qed
qed

lemma bitlen_mult_pow: "0 \<le> m \<Longrightarrow> bitlen (m * 2 ^ j) \<le> bitlen m + int j"
proof -
  assume "0 \<le> m"
  have "m * 2 ^ j < 2 ^ nat (bitlen m) * 2 ^ j"
    using bitlen_less [of m] by simp
  then have "m * 2 ^ j < 2 ^ (nat (bitlen m) + j)"
    by (simp add: power_add)
  from bitlen_le [OF this] show ?thesis
    using bitlen_nonneg [of m] by simp
qed

lemma bitlen_mono: "m \<le> n \<Longrightarrow> bitlen m \<le> bitlen n"
proof -
  assume "m \<le> n"
  with bitlen_less [of n] have "m < 2 ^ nat (bitlen n)" by simp
  from bitlen_le [OF this] show ?thesis
    using bitlen_nonneg [of n] by simp
qed

lemma round_half_even_le:
  assumes "n \<le> x * 2 ^ k"
  shows "round_half_even n k \<le> x"
proof -
  have pos: "(0::int) < 2 ^ k" by simp
  have q: "n div 2 ^ k \<le> x"
    using zdiv_mono1 [OF assms pos] by simp
  show ?thesis
  proof (cases "n mod 2 ^ k = 0")
    case True
    with q show ?thesis by (simp add: round_half_even_def)
  next
    case False
    have "n div 2 ^ k \<noteq> x"
    proof
      assume "n div 2 ^ k = x"
      then have "n = x * 2 ^ k + n mod 2 ^ k"
        using div_mult_mod_eq [of n "2 ^ k"] by simp
      moreover have "0 \<le> n mod 2 ^ k"
        by simp
      ultimately show False
        using False assms by linarith
    qed
    with q have "n div 2 ^ k < x" by simp
    then show ?thesis by (simp add: round_half_even_def Let_def)
  qed
qed

lemma round_half_even_ge: "0 \<le> n \<Longrightarrow> 0 \<le> round_half_even n k"
  by (simp add: round_half_even_def Let_def pos_imp_zdiv_nonneg_iff)

lemma round_half_even_0 [simp]: "round_half_even 0 k = 0"
  by (simp add: round_half_even_def)

lemma round_half_even_exact [simp]: "round_half_even n 0 = n"
  by (simp add: round_half_even_def)

lemma round_mag_cases:
  "round_mag n e =
     (let k = nat (max (bitlen n - 53) (- 1074 - e));
          q0 = round_half_even n k;
          q = (if q0 = 2 ^ 53 then 2 ^ 52 else q0);
          e' = (if q0 = 2 ^ 53 then e + int k + 1 else e + int k)
      in if q \<noteq> 0 \<and> 1024 < bitlen q + e' then None else Some (q, e'))"
  by (simp add: round_mag_def Let_def)

lemma round_mag_nonneg:
  assumes "0 \<le> n" and "round_mag n e = Some (q, e')"
  shows "0 \<le> q"
proof -
  have "0 \<le> round_half_even n (nat (max (bitlen n - 53) (- 1074 - e)))"
    using assms(1) by (rule round_half_even_ge)
  with assms(2) show ?thesis
    by (auto simp: round_mag_cases Let_def split: if_splits)
qed

lemma round_mag_zero: "\<exists>e'. round_mag 0 e = Some (0, e')"
  by (simp add: round_mag_cases Let_def)

lemma round_mag_exact:
  assumes "0 \<le> n" and "n < 2 ^ 53" and "- 1074 \<le> e" and "n = 0 \<or> bitlen n + e \<le> 1024"
  shows "round_mag n e = Some (n, e)"
proof -
  have "bitlen n \<le> 53"
    using bitlen_le [OF assms(2)] by simp
  with assms(3) have k: "nat (max (bitlen n - 53) (- 1074 - e)) = 0"
    by simp
  show ?thesis
    unfolding round_mag_cases k Let_def using assms(2,4) by auto
qed

lemma no_overflow:
  assumes "0 \<le> q" and "q \<le> M * 2 ^ j" and "e' + int j = b" and "M = 0 \<or> bitlen M + b \<le> 1024"
    and "0 \<le> M"
  shows "\<not> (q \<noteq> 0 \<and> 1024 < bitlen q + e')"
proof
  assume a: "q \<noteq> 0 \<and> 1024 < bitlen q + e'"
  with assms(1,2) have "M \<noteq> 0" by auto
  with assms(4) have fin: "bitlen M + b \<le> 1024" by simp
  have "bitlen q \<le> bitlen (M * 2 ^ j)"
    using assms(2) by (rule bitlen_mono)
  also have "\<dots> \<le> bitlen M + int j"
    using assms(5) by (rule bitlen_mult_pow)
  finally have "bitlen q + e' \<le> bitlen M + b"
    using assms(3) by simp
  with fin a show False by simp
qed

lemma round_mag_scale:
  assumes kk: "0 \<le> kk" "kk < 2 ^ 53" and M: "0 \<le> M" "M < 2 ^ 53" and b: "- 1074 \<le> b"
    and fin: "M = 0 \<or> bitlen M + b \<le> 1024"
  shows "\<exists>q e'. round_mag (kk * M) (b - 53) = Some (q, e') \<and> 0 \<le> q \<and> e' \<le> b
                \<and> q \<le> M * 2 ^ nat (b - e')"
proof -
  define n where "n = kk * M"
  define kd where "kd = nat (max (bitlen n - 53) (- 1074 - (b - 53)))"
  define q0 where "q0 = round_half_even n kd"
  have n0: "0 \<le> n"
    using kk(1) M(1) by (simp add: n_def)
  have n1: "n \<le> M * 2 ^ 53"
    using mult_right_mono [of kk "2 ^ 53" M] kk(2) M(1) by (simp add: n_def mult.commute)
  have "M * 2 ^ 53 < 2 ^ 53 * 2 ^ 53"
    using M(2) by simp
  with n1 have "n < 2 ^ 106"
    by simp
  from bitlen_le [OF this] have "bitlen n \<le> 106" by simp
  with b have kd53: "kd \<le> 53"
    by (simp add: kd_def)
  have "(2::int) ^ (53 - kd) * 2 ^ kd = 2 ^ 53"
    using kd53 by (simp add: power_add [symmetric])
  with n1 have "n \<le> (M * 2 ^ (53 - kd)) * 2 ^ kd"
    unfolding mult.assoc by (simp only:)
  then have q0X: "q0 \<le> M * 2 ^ (53 - kd)"
    unfolding q0_def by (rule round_half_even_le)
  have q0nn: "0 \<le> q0"
    unfolding q0_def using n0 by (rule round_half_even_ge)
  have rm: "round_mag n (b - 53) =
      (let q = (if q0 = 2 ^ 53 then 2 ^ 52 else q0);
           e' = (if q0 = 2 ^ 53 then b - 53 + int kd + 1 else b - 53 + int kd)
       in if q \<noteq> 0 \<and> 1024 < bitlen q + e' then None else Some (q, e'))"
    unfolding round_mag_cases kd_def [symmetric] Let_def q0_def [symmetric] by simp
  show ?thesis
  proof (cases "q0 = 2 ^ 53")
    case False
    have j: "nat (b - (b - 53 + int kd)) = 53 - kd"
      using kd53 by simp
    have "(b - 53 + int kd) + int (53 - kd) = b"
      using kd53 by simp
    from no_overflow [OF q0nn q0X this fin M(1)]
    have "round_mag n (b - 53) = Some (q0, b - 53 + int kd)"
      unfolding rm using False by (simp add: Let_def)
    moreover have "b - 53 + int kd \<le> b"
      using kd53 by simp
    ultimately show ?thesis
      using q0nn q0X unfolding n_def j [symmetric] by blast
  next
    case True
    have kd52: "kd \<le> 52"
    proof (rule ccontr)
      assume "\<not> kd \<le> 52"
      with kd53 have "kd = 53" by simp
      with q0X True M(2) show False by simp
    qed
    have "(2::int) ^ (53 - kd) = 2 * 2 ^ (52 - kd)"
      using kd52 by (simp add: Suc_diff_le flip: power_Suc)
    with q0X True have X: "(2::int) ^ 52 \<le> M * 2 ^ (52 - kd)"
      by simp
    have j: "nat (b - (b - 53 + int kd + 1)) = 52 - kd"
      using kd52 by simp
    have "(b - 53 + int kd + 1) + int (52 - kd) = b"
      using kd52 by simp
    from no_overflow [OF _ X this fin M(1)]
    have "round_mag n (b - 53) = Some (2 ^ 52, b - 53 + int kd + 1)"
      unfolding rm using True by (simp add: Let_def)
    moreover have "b - 53 + int kd + 1 \<le> b"
      using kd52 by simp
    ultimately show ?thesis
      using X unfolding n_def j [symmetric] by (intro exI [of _ "2 ^ 52"] exI [of _ "b - 53 + int kd + 1"]) simp
  qed
qed

lemma round_mag_repr:
  assumes "0 \<le> n" and "round_mag n e = Some (q, e')"
  shows "0 \<le> q \<and> q < 2 ^ 53 \<and> - 1074 \<le> e' \<and> (q = 0 \<or> bitlen q + e' \<le> 1024)"
proof -
  define k where "k = nat (max (bitlen n - 53) (- 1074 - e))"
  define q0 where "q0 = round_half_even n k"
  have "nat (bitlen n) \<le> 53 + k"
    by (simp add: k_def)
  then have "(2::int) ^ nat (bitlen n) \<le> 2 ^ (53 + k)"
    by (rule power_increasing) simp
  with bitlen_less [of n] have "n \<le> 2 ^ 53 * 2 ^ k"
    by (simp add: power_add)
  then have q0: "q0 \<le> 2 ^ 53"
    unfolding q0_def by (rule round_half_even_le)
  have ek: "- 1074 \<le> e + int k"
    unfolding k_def by linarith
  have rm: "round_mag n e =
      (let q = (if q0 = 2 ^ 53 then 2 ^ 52 else q0);
           e' = (if q0 = 2 ^ 53 then e + int k + 1 else e + int k)
       in if q \<noteq> 0 \<and> 1024 < bitlen q + e' then None else Some (q, e'))"
    unfolding round_mag_cases k_def [symmetric] Let_def q0_def [symmetric] by simp
  from assms(2) q0 ek have "q < 2 ^ 53 \<and> - 1074 \<le> e' \<and> (q = 0 \<or> bitlen q + e' \<le> 1024)"
    unfolding rm Let_def by (auto split: if_splits)
  with round_mag_nonneg [OF assms] show ?thesis by simp
qed

lemma round_double_nonneg: "0 \<le> m \<Longrightarrow> nonneg (round_double m e)"
  by (auto simp: round_double_def split: option.splits dest: round_mag_nonneg [rotated])

lemma round_double_zero: "is_zero (round_double 0 e)"
  using round_mag_zero [of e] by (auto simp: round_double_def)

lemma round_double_exact:
  assumes "0 \<le> n" and "n < 2 ^ 53" and "- 1074 \<le> e" and "n = 0 \<or> bitlen n + e \<le> 1024"
  shows "round_double n e = Finite n e"
  using round_mag_exact [OF assms] assms(1) by (simp add: round_double_def)

lemma round_double_is_double: "is_double (round_double m e)"
proof (cases "round_mag \<bar>m\<bar> e")
  case None
  then show ?thesis by (simp add: round_double_def)
next
  case (Some p)
  obtain q e' where p: "p = (q, e')" by (cases p)
  have "0 \<le> \<bar>m\<bar>" by simp
  from round_mag_repr [OF this Some [unfolded p]]
  show ?thesis
    by (auto simp: round_double_def Some p)
qed

lemma fadd_nonneg: "nonneg a \<Longrightarrow> nonneg b \<Longrightarrow> nonneg (fadd a b)"
  by (cases a; cases b) (simp_all add: Let_def round_double_nonneg)

lemma fadd_is_double: "is_double (fadd a b)"
  by (cases a; cases b) (simp_all add: Let_def round_double_is_double)

lemma fadd_zero: "is_zero a \<Longrightarrow> is_zero b \<Longrightarrow> is_zero (fadd a b)"
  by (cases a; cases b) (simp_all add: Let_def round_double_zero)

lemma fmul_zero: "is_zero b \<Longrightarrow> is_zero (fmul (Finite k e) b)"
  by (cases b) (simp_all add: round_double_zero)

lemma fsub_zero: "is_zero a \<Longrightarrow> is_zero b \<Longrightarrow> is_zero (fsub a b)"
  by (cases a; cases b) (simp_all add: fsub_def Let_def round_double_zero)

lemma flt_zero: "is_zero a \<Longrightarrow> is_zero b \<Longrightarrow> \<not> flt a b"
  by (cases a; cases b) simp_all

lemma fmul_draw_nonneg:
  assumes "0 \<le> k" and "nonneg t"
  shows "fmul (Finite k e) t = NaN \<or> nonneg (fmul (Finite k e) t)"
  using assms by (cases t) (simp_all add: round_double_nonneg Let_def sgn_if)

lemma not_below_zero:
  assumes "r = NaN \<or> nonneg r" and "is_zero w"
  shows "\<not> flt r w"
  using assms by (cases r; cases w) (simp_all add: Let_def mult_less_0_iff)

lemma fsub_band_nonneg:
  assumes "r = NaN \<or> nonneg r" and "nonneg m" and "\<not> flt r m"
  shows "fsub r m = NaN \<or> nonneg (fsub r m)"
  using assms by (cases r; cases m) (simp_all add: fsub_def Let_def round_double_nonneg)

lemma fmul_draw_le:
  assumes k: "0 \<le> k" "k < 2 ^ 53" and "nonneg t" and "is_double t"
  shows "\<not> flt t (fmul (Finite k (- 53)) t)"
proof (cases t)
  case (Finite M b)
  with assms(3,4) have M: "0 \<le> M" "M < 2 ^ 53" "- 1074 \<le> b" "M = 0 \<or> bitlen M + b \<le> 1024"
    by simp_all
  from round_mag_scale [OF k M] obtain q e' where
    r: "round_mag (k * M) (b - 53) = Some (q, e')" and q: "0 \<le> q" "e' \<le> b" "q \<le> M * 2 ^ nat (b - e')"
    by blast
  have km: "\<bar>k * M\<bar> = k * M" "\<not> k * M < 0"
    using k(1) M(1) by (simp_all add: abs_mult mult_less_0_iff)
  have "fmul (Finite k (- 53)) t = Finite q e'"
    using r km by (simp add: Finite round_double_def)
  moreover have "\<not> flt (Finite M b) (Finite q e')"
  proof -
    have "min b e' = e'"
      using q(2) by simp
    with q(3) show ?thesis
      by (simp add: Let_def)
  qed
  ultimately show ?thesis by (simp add: Finite)
next
  case PInf
  then show ?thesis by (simp add: Let_def)
next
  case NInf
  with assms(3) show ?thesis by simp
next
  case NaN
  with assms(3) show ?thesis by simp
qed

section \<open>Behaviour policy: properties\<close>

lemma random_random_draw:
  "\<exists>k. fst (random_random g) = Finite k (- 53) \<and> 0 \<le> k \<and> k < 2 ^ 53"
proof -
  have "g 0 mod 2 ^ 53 < (2::nat) ^ 53" by simp
  then have "int (g 0 mod 2 ^ 53) < int ((2::nat) ^ 53)"
    by (rule iffD2 [OF of_nat_less_iff])
  then show ?thesis by (simp add: random_random_def)
qed

lemma choose_action_spec_band:
  "fst (choose_action cfg g)
     = spec_band cfg (fmul (fst (random_random g))
         (fadd (fadd (move_weight cfg) (kill_weight cfg)) (look_weight cfg)))"
  by (simp add: choose_action_def spec_band_def Let_def split: prod.splits)

lemma draw_exact:
  assumes "0 \<le> k" and "k < 2 ^ 53"
  shows "round_double k (- 53) = Finite k (- 53)"
proof -
  have "bitlen k \<le> 53"
    using bitlen_le [OF assms(2)] by simp
  then have "k = 0 \<or> bitlen k + (- 53) \<le> 1024"
    by simp
  with assms show ?thesis
    by (intro round_double_exact) simp_all
qed

lemma kill_only_total: "fadd (fadd (Finite 0 0) (Finite 1 0)) (Finite 0 0) = Finite 1 0"
  by code_simp

lemma kill_only_band:
  assumes "0 \<le> k" and "k < 2 ^ 53"
    and "move_weight cfg = Finite 0 0" and "kill_weight cfg = Finite 1 0"
  shows "spec_band cfg (fmul (Finite k (- 53)) (Finite 1 0)) = ''kill''"
proof -
  have r: "fmul (Finite k (- 53)) (Finite 1 0) = Finite k (- 53)"
    using draw_exact [OF assms(1,2)] by simp
  have m: "\<not> flt (Finite k (- 53)) (Finite 0 0)"
    using assms(1) by (simp add: Let_def)
  have s: "fsub (Finite k (- 53)) (Finite 0 0) = Finite k (- 53)"
    using draw_exact [OF assms(1,2)] by (simp add: fsub_def Let_def)
  have l: "flt (Finite k (- 53)) (Finite 1 0)"
    using assms(2) by (simp add: Let_def)
  show ?thesis
    unfolding spec_band_def r assms(3,4) using m l by (simp add: s)
qed

lemma no_weights_band:
  assumes "is_zero (move_weight cfg)" and "is_zero (kill_weight cfg)" and "is_zero r"
  shows "spec_band cfg r = ''look''"
proof -
  have "\<not> flt r (move_weight cfg)"
    using assms(3,1) by (rule flt_zero)
  moreover have "\<not> flt (fsub r (move_weight cfg)) (kill_weight cfg)"
    using fsub_zero [OF assms(3,1)] assms(2) by (rule flt_zero)
  ultimately show ?thesis
    by (simp add: spec_band_def)
qed

text \<open>
  C4 (amended). With non-negative weights, \<open>choose_action\<close> takes the draw \<open>u = k / 2 ^ 53\<close>
  of \<open>random.random()\<close>, where \<open>k\<close> is the generator's 53-bit value, and computes in float
  arithmetic \<open>total = (move + kill) + look\<close> and \<open>r = u * total\<close>; \<open>r\<close> is not below 0 and
  not above \<open>total\<close>. It subtracts the band weights in the order move, kill, look and
  returns the first band that contains what is left of \<open>r\<close>. Move is never returned when
  its weight is zero, and kill is never returned when its weight is zero. With the weights
  0, 1 and 0 the action is always kill. With all three weights zero the action is always
  look.
\<close>

theorem choose_action_bands:
  assumes "nonneg (move_weight cfg)" and "nonneg (kill_weight cfg)"
    and "nonneg (look_weight cfg)"
  shows "(let total = fadd (fadd (move_weight cfg) (kill_weight cfg)) (look_weight cfg);
              u = fst (random_random g);
              r = fmul u total;
              action = fst (choose_action cfg g)
          in u = Finite (int (g 0 mod 2 ^ 53)) (- 53)
           \<and> \<not> flt r (Finite 0 0) \<and> \<not> flt total r
           \<and> action = spec_band cfg r
           \<and> (is_zero (move_weight cfg) \<longrightarrow> action \<noteq> ''move'')
           \<and> (is_zero (kill_weight cfg) \<longrightarrow> action \<noteq> ''kill'')
           \<and> (move_weight cfg = Finite 0 0 \<and> kill_weight cfg = Finite 1 0
                \<and> look_weight cfg = Finite 0 0 \<longrightarrow> action = ''kill'')
           \<and> (is_zero (move_weight cfg) \<and> is_zero (kill_weight cfg)
                \<and> is_zero (look_weight cfg) \<longrightarrow> action = ''look''))"
proof -
  define total where "total = fadd (fadd (move_weight cfg) (kill_weight cfg)) (look_weight cfg)"
  define u where "u = fst (random_random g)"
  define r where "r = fmul u total"
  define action where "action = fst (choose_action cfg g)"
  from random_random_draw [of g] obtain k where
    k: "u = Finite k (- 53)" "0 \<le> k" "k < 2 ^ 53"
    unfolding u_def by blast
  have u: "u = Finite (int (g 0 mod 2 ^ 53)) (- 53)"
    by (simp add: u_def random_random_def)
  have total_nonneg: "nonneg total"
    unfolding total_def by (intro fadd_nonneg assms)
  have total_double: "is_double total"
    unfolding total_def by (rule fadd_is_double)
  have r_sign: "r = NaN \<or> nonneg r"
    unfolding r_def k(1) using k(2) total_nonneg by (rule fmul_draw_nonneg)
  have zero: "is_zero (Finite 0 0)"
    by simp
  have lower: "\<not> flt r (Finite 0 0)"
    using r_sign zero by (rule not_below_zero)
  have upper: "\<not> flt total r"
    unfolding r_def k(1) using k(2,3) total_nonneg total_double by (rule fmul_draw_le)
  have act: "action = spec_band cfg r"
    unfolding action_def r_def u_def total_def by (rule choose_action_spec_band)
  have no_move: "is_zero (move_weight cfg) \<longrightarrow> action \<noteq> ''move''"
  proof
    assume "is_zero (move_weight cfg)"
    with r_sign have "\<not> flt r (move_weight cfg)"
      by (rule not_below_zero)
    then show "action \<noteq> ''move''"
      by (simp add: act spec_band_def)
  qed
  have no_kill: "is_zero (kill_weight cfg) \<longrightarrow> action \<noteq> ''kill''"
  proof
    assume z: "is_zero (kill_weight cfg)"
    show "action \<noteq> ''kill''"
    proof (cases "flt r (move_weight cfg)")
      case True
      then show ?thesis by (simp add: act spec_band_def)
    next
      case False
      with r_sign assms(1) have "fsub r (move_weight cfg) = NaN \<or> nonneg (fsub r (move_weight cfg))"
        by (rule fsub_band_nonneg)
      then have "\<not> flt (fsub r (move_weight cfg)) (kill_weight cfg)"
        using z by (rule not_below_zero)
      with False show ?thesis by (simp add: act spec_band_def)
    qed
  qed
  have kill_only: "move_weight cfg = Finite 0 0 \<and> kill_weight cfg = Finite 1 0
      \<and> look_weight cfg = Finite 0 0 \<longrightarrow> action = ''kill''"
  proof
    assume w: "move_weight cfg = Finite 0 0 \<and> kill_weight cfg = Finite 1 0
      \<and> look_weight cfg = Finite 0 0"
    then have w': "move_weight cfg = Finite 0 0" "kill_weight cfg = Finite 1 0"
      "look_weight cfg = Finite 0 0"
      by simp_all
    have "total = Finite 1 0"
      unfolding total_def w' by (rule kill_only_total)
    then have "r = fmul (Finite k (- 53)) (Finite 1 0)"
      by (simp only: r_def k(1))
    with kill_only_band [OF k(2,3) w'(1,2)] show "action = ''kill''"
      by (simp only: act)
  qed
  have no_weights: "is_zero (move_weight cfg) \<and> is_zero (kill_weight cfg)
      \<and> is_zero (look_weight cfg) \<longrightarrow> action = ''look''"
  proof
    assume w: "is_zero (move_weight cfg) \<and> is_zero (kill_weight cfg)
      \<and> is_zero (look_weight cfg)"
    then have "is_zero total"
      unfolding total_def by (intro fadd_zero) simp_all
    then have "is_zero r"
      unfolding r_def k(1) by (rule fmul_zero)
    with w show "action = ''look''"
      by (simp add: act no_weights_band)
  qed
  from u lower upper act no_move no_kill kill_only no_weights
  show ?thesis
    unfolding Let_def total_def [symmetric] u_def [symmetric] r_def [symmetric]
      action_def [symmetric]
    by (intro conjI)
qed

lemma kill_only_nonneg:
  "nonneg (move_weight cfg_kill_only)" "nonneg (kill_weight cfg_kill_only)"
  "nonneg (look_weight cfg_kill_only)"
  by (simp_all add: cfg_kill_only_def)

lemma no_kill_nonneg:
  "nonneg (move_weight cfg_no_kill)" "nonneg (kill_weight cfg_no_kill)"
  "nonneg (look_weight cfg_no_kill)"
  by (simp_all add: cfg_no_kill_def cfg_kill_only_def)

theorem choose_action_bands_witness:
  "fst (choose_action cfg_kill_only (const_rng 12345)) = ''kill''
   \<and> fst (choose_action cfg_no_kill (const_rng 12345)) \<noteq> ''kill''"
proof -
  from choose_action_bands [OF kill_only_nonneg, of "const_rng 12345"]
  have "move_weight cfg_kill_only = Finite 0 0 \<and> kill_weight cfg_kill_only = Finite 1 0
      \<and> look_weight cfg_kill_only = Finite 0 0
      \<longrightarrow> fst (choose_action cfg_kill_only (const_rng 12345)) = ''kill''"
    unfolding Let_def by blast
  then have a: "fst (choose_action cfg_kill_only (const_rng 12345)) = ''kill''"
    by (simp add: cfg_kill_only_def)
  from choose_action_bands [OF no_kill_nonneg, of "const_rng 12345"]
  have "is_zero (kill_weight cfg_no_kill)
      \<longrightarrow> fst (choose_action cfg_no_kill (const_rng 12345)) \<noteq> ''kill''"
    unfolding Let_def by blast
  then have "fst (choose_action cfg_no_kill (const_rng 12345)) \<noteq> ''kill''"
    by (simp add: cfg_no_kill_def cfg_kill_only_def)
  with a show ?thesis by simp
qed

text \<open>
  Look is returned with the look weight zero: with every weight zero, where \<open>r\<close> is 0 and
  no band holds it; and with the weights 0.3, 0.7 and 0 at the largest draw, where
  \<open>0.3 + 0.7\<close> is \<open>1.0\<close>, \<open>r\<close> is \<open>1 - 2 ^ - 53\<close>, and \<open>r - 0.3\<close> rounds to \<open>0.7\<close>, which is
  not below the kill weight.
\<close>

lemma rounding_total:
  "fadd (fadd (Finite 5404319552844595 (- 54)) (Finite 3152519739159347 (- 52))) (Finite 0 0)
     = Finite 4503599627370496 (- 52)"
  by code_simp

lemma rounding_draw:
  "fmul (Finite 9007199254740991 (- 53)) (Finite 4503599627370496 (- 52))
     = Finite 9007199254740991 (- 53)"
  by code_simp

lemma rounding_move:
  "\<not> flt (Finite 9007199254740991 (- 53)) (Finite 5404319552844595 (- 54))"
  by code_simp

lemma rounding_rest:
  "fsub (Finite 9007199254740991 (- 53)) (Finite 5404319552844595 (- 54))
     = Finite 6305039478318694 (- 53)"
  by code_simp

lemma rounding_kill:
  "\<not> flt (Finite 6305039478318694 (- 53)) (Finite 3152519739159347 (- 52))"
  by code_simp

lemma largest_draw:
  "fst (random_random (const_rng (2 ^ 53 - 1))) = Finite 9007199254740991 (- 53)"
  by (simp add: random_random_def const_rng_def)

lemma least_draw: "fst (random_random (const_rng 0)) = Finite 0 (- 53)"
  by (simp add: random_random_def const_rng_def)

lemma no_weights_total: "fadd (fadd (Finite 0 0) (Finite 0 0)) (Finite 0 0) = Finite 0 0"
  by code_simp

lemma no_weights_draw: "fmul (Finite 0 (- 53)) (Finite 0 0) = Finite 0 (- 53)"
  by code_simp

lemma no_weights_rest: "fsub (Finite 0 (- 53)) (Finite 0 0) = Finite 0 (- 53)"
  by code_simp

theorem choose_action_zero_weight_counterexample:
  "is_zero (look_weight cfg_no_weights)
   \<and> fst (choose_action cfg_no_weights (const_rng 0)) = ''look''
   \<and> is_zero (look_weight cfg_rounding)
   \<and> nonneg (move_weight cfg_rounding) \<and> nonneg (kill_weight cfg_rounding)
   \<and> fst (choose_action cfg_rounding (const_rng (2 ^ 53 - 1))) = ''look''"
proof -
  have nw: "move_weight cfg_no_weights = Finite 0 0" "kill_weight cfg_no_weights = Finite 0 0"
    "look_weight cfg_no_weights = Finite 0 0"
    by (simp_all add: cfg_no_weights_def cfg_kill_only_def)
  have rw: "move_weight cfg_rounding = Finite 5404319552844595 (- 54)"
    "kill_weight cfg_rounding = Finite 3152519739159347 (- 52)"
    "look_weight cfg_rounding = Finite 0 0"
    by (simp_all add: cfg_rounding_def cfg_kill_only_def)
  have "fst (choose_action cfg_no_weights (const_rng 0)) = ''look''"
    unfolding choose_action_spec_band least_draw spec_band_def nw no_weights_total
      no_weights_draw no_weights_rest
    by (simp add: Let_def)
  moreover have "fst (choose_action cfg_rounding (const_rng (2 ^ 53 - 1))) = ''look''"
    unfolding choose_action_spec_band largest_draw spec_band_def rw rounding_total
      rounding_draw rounding_rest
    using rounding_move rounding_kill by simp
  ultimately show ?thesis
    by (simp add: cfg_no_weights_def cfg_rounding_def cfg_kill_only_def)
qed

lemma OPPOSITE_spec: "map_of OPPOSITE d = spec_opposite d"
  by (simp add: OPPOSITE_def spec_opposite_def)

lemma choose_move_candidates:
  "choose_move cfg last_move g = random_choice (spec_move_candidates cfg last_move) g"
proof (cases last_move)
  case None
  then show ?thesis
    by (simp add: choose_move_def spec_move_candidates_def)
next
  case (Some d)
  show ?thesis
  proof (cases "d = []")
    case True
    have "filter (\<lambda>m. spec_opposite [] \<noteq> Some m) (moves cfg) = moves cfg"
      by (simp add: spec_opposite_def)
    with Some True show ?thesis
      by (simp add: choose_move_def spec_move_candidates_def)
  next
    case False
    have "(\<lambda>m. Some m \<noteq> spec_opposite d) = (\<lambda>m. spec_opposite d \<noteq> Some m)"
      by auto
    with Some False show ?thesis
      by (simp add: choose_move_def spec_move_candidates_def OPPOSITE_spec Let_def)
  qed
qed

lemma spec_move_candidates_subset:
  "set (spec_move_candidates cfg last_move) \<subseteq> set (moves cfg)"
  by (auto simp: spec_move_candidates_def Let_def split: option.splits)

lemma spec_move_candidates_nonempty:
  "moves cfg \<noteq> [] \<Longrightarrow> spec_move_candidates cfg last_move \<noteq> []"
  by (auto simp: spec_move_candidates_def Let_def split: option.splits)

lemma random_choice_index:
  "seq \<noteq> [] \<Longrightarrow> fst (random_choice seq g) = Inr (seq ! (g 0 mod length seq))"
  by (simp add: random_choice_def randbelow_def)

text \<open>
  C5. For a non-empty movement set the move is a \<open>random.choice\<close> from the candidates of
  the specification: it is the candidate at the drawn index, every candidate is the
  result of some draw, and the candidates are moves of the configuration. With the moves
  north and south, avoidance on and north as the last move, the result is north.
\<close>

theorem choose_move_avoids_backtrack:
  assumes "moves cfg \<noteq> []"
  shows "(let cands = spec_move_candidates cfg last_move
          in cands \<noteq> [] \<and> set cands \<subseteq> set (moves cfg)
           \<and> choose_move cfg last_move g = random_choice cands g
           \<and> fst (choose_move cfg last_move g) = Inr (cands ! (g 0 mod length cands))
           \<and> (\<forall>i < length cands. fst (choose_move cfg last_move (const_rng i)) = Inr (cands ! i)))
         \<and> (moves cfg = [''north'', ''south''] \<and> avoid_immediate_backtrack cfg
              \<and> last_move = Some ''north''
            \<longrightarrow> fst (choose_move cfg last_move g) = Inr ''north'')"
proof -
  let ?c = "spec_move_candidates cfg last_move"
  have ne: "?c \<noteq> []"
    using assms by (rule spec_move_candidates_nonempty)
  have pick: "fst (choose_move cfg last_move h) = Inr (?c ! (h 0 mod length ?c))" for h
    using ne by (simp add: choose_move_candidates random_choice_index)
  have every: "\<forall>i < length ?c. fst (choose_move cfg last_move (const_rng i)) = Inr (?c ! i)"
    by (simp add: pick const_rng_def)
  have north: "fst (choose_move cfg last_move g) = Inr ''north''"
    if "moves cfg = [''north'', ''south'']" "avoid_immediate_backtrack cfg"
       "last_move = Some ''north''"
  proof -
    from that have "?c = [''north'']"
      by (simp add: spec_move_candidates_def spec_opposite_def)
    with pick [of g] show ?thesis by simp
  qed
  show ?thesis
    using ne spec_move_candidates_subset [of cfg last_move] pick [of g] every north
    by (simp add: Let_def choose_move_candidates)
qed

theorem choose_move_avoids_backtrack_witness:
  "fst (choose_move cfg_kill_only (Some ''north'') (const_rng 1)) = Inr ''north''
   \<and> fst (choose_move cfg_kill_only None (const_rng 1)) = Inr ''south''
   \<and> fst (choose_move (cfg_kill_only\<lparr>moves := [''north'', ''south'', ''east'', ''west'']\<rparr>)
         (Some ''east'') (const_rng 2)) = Inr ''east''"
  using choose_move_avoids_backtrack [of cfg_kill_only "Some ''north''" "const_rng 1"]
        choose_move_avoids_backtrack [of cfg_kill_only None "const_rng 1"]
        choose_move_avoids_backtrack
          [of "cfg_kill_only\<lparr>moves := [''north'', ''south'', ''east'', ''west'']\<rparr>"
              "Some ''east''" "const_rng 2"]
  by (simp add: cfg_kill_only_def Let_def spec_move_candidates_def spec_opposite_def
      const_rng_def random_choice_def randbelow_def)

section \<open>Generated credentials: properties\<close>

lemma digit_char: "d < 10 \<Longrightarrow> is_digit (''0123456789'' ! d) \<and> digit_value (''0123456789'' ! d) = d"
proof -
  assume "d < 10"
  then have "d \<in> {0, 1, 2, 3, 4, 5, 6, 7, 8, 9}" by auto
  then show ?thesis
    by (auto simp: is_digit_def digit_value_def)
qed

lemma decimal_digits: "list_all is_digit (decimal n)"
proof (induction n rule: decimal.induct)
  case (1 n)
  show ?case
  proof (cases "n < 10")
    case True
    then show ?thesis by (subst decimal.simps) (simp add: digit_char)
  next
    case False
    with "1.IH" have "list_all is_digit (decimal (n div 10))" by simp
    moreover have "is_digit (''0123456789'' ! (n mod 10))" by (simp add: digit_char)
    ultimately show ?thesis using False by (subst decimal.simps) simp
  qed
qed

lemma decimal_value_snoc: "decimal_value (s @ [c]) = 10 * decimal_value s + digit_value c"
  by (simp add: decimal_value_def)

lemma decimal_value_decimal: "decimal_value (decimal n) = n"
proof (induction n rule: decimal.induct)
  case (1 n)
  show ?case
  proof (cases "n < 10")
    case True
    then show ?thesis
      by (subst decimal.simps) (simp add: decimal_value_def digit_char)
  next
    case False
    with "1.IH" have "decimal_value (decimal (n div 10)) = n div 10" by simp
    with False show ?thesis
      by (subst decimal.simps) (simp add: decimal_value_snoc digit_char)
  qed
qed

lemma decimal_value_zeros: "decimal_value (replicate k CHR ''0'' @ s) = decimal_value s"
  by (induction k) (simp_all add: decimal_value_def digit_value_def)

lemma decimal_length_upper: "0 < k \<Longrightarrow> n < 10 ^ k \<Longrightarrow> length (decimal n) \<le> k"
proof (induction n arbitrary: k rule: decimal.induct)
  case (1 n)
  show ?case
  proof (cases "n < 10")
    case True
    with "1.prems" show ?thesis by (subst decimal.simps) simp
  next
    case False
    with "1.prems" obtain j where k: "k = Suc j" by (cases k) auto
    with False "1.prems" have "0 < j" by (cases j) auto
    moreover have "n div 10 < 10 ^ j" using "1.prems" k by (simp add: less_mult_imp_div_less)
    ultimately have "length (decimal (n div 10)) \<le> j" using "1.IH" False by simp
    with False k show ?thesis by (subst decimal.simps) simp
  qed
qed

lemma decimal_length_lower: "10 ^ k \<le> n \<Longrightarrow> k < length (decimal n)"
proof (induction n arbitrary: k rule: decimal.induct)
  case (1 n)
  show ?case
  proof (cases "n < 10")
    case True
    have "k = 0"
    proof (rule ccontr)
      assume "k \<noteq> 0"
      then have "(10::nat) ^ 1 \<le> 10 ^ k" by (intro power_increasing) simp_all
      with "1.prems" True show False by simp
    qed
    with True show ?thesis by (subst decimal.simps) simp
  next
    case False
    show ?thesis
    proof (cases k)
      case 0
      with False show ?thesis by (subst decimal.simps) simp
    next
      case (Suc j)
      with "1.prems" have "10 ^ j \<le> n div 10" by (simp add: le_div_geq less_eq_div_iff_mult_less_eq)
      with "1.IH" False have "j < length (decimal (n div 10))" by simp
      with False Suc show ?thesis by (subst decimal.simps) simp
    qed
  qed
qed

lemma rand_suffix_shape:
  "length (fst (rand_suffix n g)) = n \<and> list_all is_lower_alnum (fst (rand_suffix n g))"
proof (induction n arbitrary: g)
  case 0
  show ?case by simp
next
  case (Suc n)
  have "g 0 mod 36 < 36" by simp
  then have "ALPHABET ! (g 0 mod 36) \<in> set ALPHABET"
    by (intro nth_mem) (simp add: ALPHABET_def)
  then have "is_lower_alnum (ALPHABET ! (g 0 mod 36))"
    by (simp add: is_lower_alnum_def ALPHABET_def)
  with Suc [of "\<lambda>i. g (Suc i)"] show ?case
    by (auto simp: randbelow_def ALPHABET_def split: prod.splits)
qed

lemma zeros_digits: "list_all is_digit (replicate k CHR ''0'')"
  by (induction k) (simp_all add: is_digit_def)

lemma format_04d_nonneg:
  assumes "0 \<le> n"
  shows "list_all is_digit (format_04d n)" and "decimal_value (format_04d n) = nat n"
    and "n \<le> 9999 \<Longrightarrow> length (format_04d n) = 4"
    and "9999 < n \<Longrightarrow> format_04d n = decimal (nat n)"
    and "9999 < n \<Longrightarrow> 4 < length (format_04d n)"
proof -
  let ?ds = "decimal (nat n)"
  have f: "format_04d n = replicate (4 - length ?ds) CHR ''0'' @ ?ds"
    using assms by (simp add: format_04d_def Let_def)
  show "list_all is_digit (format_04d n)"
    by (simp add: f decimal_digits zeros_digits)
  show "decimal_value (format_04d n) = nat n"
    by (simp add: f decimal_value_zeros decimal_value_decimal)
  show "length (format_04d n) = 4" if "n \<le> 9999"
  proof -
    from that assms have "nat n < 10 ^ 4" by simp
    then have "length ?ds \<le> 4" by (intro decimal_length_upper) simp_all
    then show ?thesis by (simp add: f)
  qed
  have big: "4 < length ?ds" if "9999 < n"
  proof -
    from that have "10 ^ 4 \<le> nat n" by simp
    then show ?thesis by (rule decimal_length_lower)
  qed
  show "format_04d n = ?ds" if "9999 < n"
    using big [OF that] by (simp add: f)
  show "4 < length (format_04d n)" if "9999 < n"
    using big [OF that] by (simp add: f)
qed

lemma bot_credentials_eq:
  "fst (bot_credentials bot_id g) =
     (''Bot'' @ format_04d bot_id @ ''_'' @ fst (rand_suffix 4 g),
      ''Pw'' @ format_04d bot_id @ ''_'' @ fst (rand_suffix 6 (snd (rand_suffix 4 g))))"
  by (simp add: bot_credentials_def Let_def split: prod.splits)

lemma credential_format_iff:
  "credential_format prefix n (prefix @ d @ ''_'' @ s) \<longleftrightarrow>
     length d + length s = 4 + n \<and> list_all is_digit (take 4 (d @ ''_'' @ s))
     \<and> (d @ ''_'' @ s) ! 4 = CHR ''_'' \<and> list_all is_lower_alnum (drop 5 (d @ ''_'' @ s))"
  by (auto simp: credential_format_def Let_def nth_append)

text \<open>
  C7 (amended). For a bot id from 0 to 9999 the name is \<open>Bot\<close>, four decimal digits that
  denote the id, an underscore and four characters from the lowercase letters and digits;
  the password is \<open>Pw\<close>, the same four digits, an underscore and six such characters.
  From 10000 on the id field is the id's decimal form, longer than four digits.
\<close>

theorem bot_credentials_format:
  assumes "0 \<le> bot_id"
  shows "fst (bot_credentials bot_id g) =
           (''Bot'' @ format_04d bot_id @ ''_'' @ fst (rand_suffix 4 g),
            ''Pw'' @ format_04d bot_id @ ''_'' @ fst (rand_suffix 6 (snd (rand_suffix 4 g))))
       \<and> list_all is_digit (format_04d bot_id)
       \<and> decimal_value (format_04d bot_id) = nat bot_id
       \<and> length (fst (rand_suffix 4 g)) = 4
       \<and> list_all is_lower_alnum (fst (rand_suffix 4 g))
       \<and> length (fst (rand_suffix 6 (snd (rand_suffix 4 g)))) = 6
       \<and> list_all is_lower_alnum (fst (rand_suffix 6 (snd (rand_suffix 4 g))))
       \<and> (bot_id \<le> 9999 \<longrightarrow>
             length (format_04d bot_id) = 4
           \<and> credential_format ''Bot'' 4 (fst (fst (bot_credentials bot_id g)))
           \<and> credential_format ''Pw'' 6 (snd (fst (bot_credentials bot_id g))))
       \<and> (9999 < bot_id \<longrightarrow>
             4 < length (format_04d bot_id)
           \<and> \<not> credential_format ''Bot'' 4 (fst (fst (bot_credentials bot_id g)))
           \<and> \<not> credential_format ''Pw'' 6 (snd (fst (bot_credentials bot_id g))))"
proof -
  let ?d = "format_04d bot_id"
  let ?s4 = "fst (rand_suffix 4 g)"
  let ?s6 = "fst (rand_suffix 6 (snd (rand_suffix 4 g)))"
  note d = format_04d_nonneg [OF assms]
  have l4: "length ?s4 = 4" and a4: "list_all is_lower_alnum ?s4"
    using rand_suffix_shape [of 4 g] by simp_all
  have l6: "length ?s6 = 6" and a6: "list_all is_lower_alnum ?s6"
    using rand_suffix_shape [of 6 "snd (rand_suffix 4 g)"] by simp_all
  have small: "length ?d = 4 \<and> credential_format ''Bot'' 4 (''Bot'' @ ?d @ ''_'' @ ?s4)
             \<and> credential_format ''Pw'' 6 (''Pw'' @ ?d @ ''_'' @ ?s6)" if "bot_id \<le> 9999"
  proof -
    have len: "length ?d = 4" using that by (rule d(3))
    show ?thesis
      unfolding credential_format_iff
      using len d(1) l4 a4 l6 a6 by (simp add: nth_append)
  qed
  have large: "4 < length ?d \<and> \<not> credential_format ''Bot'' 4 (''Bot'' @ ?d @ ''_'' @ ?s4)
             \<and> \<not> credential_format ''Pw'' 6 (''Pw'' @ ?d @ ''_'' @ ?s6)" if "9999 < bot_id"
  proof -
    have len: "4 < length ?d" using that by (rule d(5))
    show ?thesis
      unfolding credential_format_iff
      using len l4 l6 by simp
  qed
  show ?thesis
    unfolding bot_credentials_eq fst_conv snd_conv
    using d(1) d(2) l4 a4 l6 a6 small large by blast
qed

lemma decimal_7: "decimal 7 = ''7''"
  by (subst decimal.simps) simp

lemma decimal_10000: "decimal 10000 = ''10000''"
  by (simp add: decimal.simps [of 10000] decimal.simps [of 1000] decimal.simps [of 100]
      decimal.simps [of 10] decimal.simps [of 1] decimal.simps [of "Suc 0"])

lemma format_04d_7: "format_04d 7 = ''0007''"
  by code_simp

lemma format_04d_10000: "format_04d 10000 = ''10000''"
  by (simp add: format_04d_def decimal_10000)

lemma demo_suffix4: "fst (rand_suffix 4 demo_rng) = ''fghi''"
  by code_simp

lemma demo_suffix6: "fst (rand_suffix 6 (snd (rand_suffix 4 demo_rng))) = ''jklmno''"
  by code_simp

lemma const_suffix4: "fst (rand_suffix 4 (const_rng 0)) = ''aaaa''"
  by code_simp

lemma demo_formats:
  "credential_format ''Bot'' 4 ''Bot0007_fghi'' \<and> credential_format ''Pw'' 6 ''Pw0007_jklmno''"
  by code_simp

lemma big_format: "\<not> credential_format ''Bot'' 4 ''Bot10000_aaaa''"
  by code_simp

theorem bot_credentials_format_witness:
  "fst (bot_credentials 7 demo_rng) = (''Bot0007_fghi'', ''Pw0007_jklmno'')
   \<and> credential_format ''Bot'' 4 ''Bot0007_fghi'' \<and> credential_format ''Pw'' 6 ''Pw0007_jklmno''"
  using bot_credentials_format [of 7 demo_rng] demo_formats
  by (simp add: demo_suffix4 demo_suffix6 format_04d_7)

text \<open>
  Bot 10000 gets a five-digit id field.
\<close>

theorem bot_credentials_five_digit_counterexample:
  "fst (fst (bot_credentials 10000 (const_rng 0))) = ''Bot10000_aaaa''
   \<and> \<not> credential_format ''Bot'' 4 (fst (fst (bot_credentials 10000 (const_rng 0))))"
  using big_format
  by (simp add: bot_credentials_eq const_suffix4 format_04d_10000)

section \<open>The loot trigger: properties\<close>

lemma recv_until_prompt_outbox:
  assumes "recv_until_prompt ws ps t = (r, ws', ps')"
  shows "outbox ws' = outbox ws"
proof (cases "at_prompt ps")
  case True
  with assms show ?thesis by (simp add: recv_until_prompt_def)
next
  case False
  with assms have "recv_until_prompt_loop ws ps (now ws + t) = (r, ws', ps')"
    by (simp add: recv_until_prompt_def)
  from recv_until_prompt_loop_consumes [OF this False] show ?thesis by blast
qed

lemma send_and_wait_prompt_outbox:
  assumes "send_and_wait_prompt ws ps cmd t = (r, ws', ps')"
  shows "outbox ws' = outbox ws @ [cmd @ [LF]] \<or> r \<noteq> Inr () \<and> outbox ws' = outbox ws"
proof -
  obtain r1 ws1 ps1 where w1: "recv_until_prompt ws ps t = (r1, ws1, ps1)"
    by (cases "recv_until_prompt ws ps t")
  note o1 = recv_until_prompt_outbox [OF w1]
  show ?thesis
  proof (cases r1)
    case (Inl e)
    with assms w1 o1 show ?thesis by (auto simp: send_and_wait_prompt_def)
  next
    case r1: (Inr u)
    obtain r2 ws2 ps2 where w2: "send_line ws1 ps1 cmd = (r2, ws2, ps2)"
      by (cases "send_line ws1 ps1 cmd")
    show ?thesis
    proof (cases r2)
      case (Inl e)
      with w2 have "outbox ws2 = outbox ws1"
        by (auto simp: send_line_def ws_send_def split: if_splits)
      with assms w1 r1 w2 Inl o1 show ?thesis by (auto simp: send_and_wait_prompt_def)
    next
      case (Inr v)
      with w2 have o2: "outbox ws2 = outbox ws1 @ [cmd @ [LF]]"
        by (auto simp: send_line_def ws_send_def split: if_splits)
      from assms w1 r1 w2 Inr have "recv_until_prompt ws2 ps2 t = (r, ws', ps')"
        by (simp add: send_and_wait_prompt_def)
      from recv_until_prompt_outbox [OF this] o1 o2 show ?thesis by simp
    qed
  qed
qed

lemma bot_command_effect:
  assumes "bot_command cfg b cmd = (r, b')"
  shows "bot_stats b' = bot_stats b"
    and "outbox (bot_ws b') = outbox (bot_ws b) @ [cmd @ [LF]]
         \<or> r \<noteq> Inr () \<and> outbox (bot_ws b') = outbox (bot_ws b)"
proof -
  obtain ws' ps' where
    s: "send_and_wait_prompt (bot_ws b) (bot_ps b) cmd (io_timeout_s cfg) = (r, ws', ps')"
    and b': "b' = b\<lparr>bot_ws := ws', bot_ps := ps'\<rparr>"
    using assms by (auto simp: bot_command_def split: prod.splits)
  show "bot_stats b' = bot_stats b" by (simp add: b')
  from send_and_wait_prompt_outbox [OF s]
  show "outbox (bot_ws b') = outbox (bot_ws b) @ [cmd @ [LF]]
         \<or> r \<noteq> Inr () \<and> outbox (bot_ws b') = outbox (bot_ws b)"
    by (simp add: b')
qed

lemma loot_due_iff:
  assumes "0 \<le> kills (bot_stats b)"
  shows "(get_lantern cfg \<and> 0 < get_every cfg \<and> (kills (bot_stats b) + 1) mod get_every cfg = 0)
         \<longleftrightarrow> spec_loot_due cfg (kills (bot_stats b) + 1)"
proof -
  let ?n = "kills (bot_stats b) + 1" and ?k = "get_every cfg"
  have npos: "0 < ?n" using assms by simp
  have "(0 < ?k \<and> ?n mod ?k = 0) \<longleftrightarrow> (\<exists>m > 0. ?n = m * ?k)"
  proof
    assume a: "0 < ?k \<and> ?n mod ?k = 0"
    then have "?k dvd ?n" by (simp add: mod_eq_0_iff_dvd)
    then obtain m where m: "?n = ?k * m" by (rule dvdE)
    with npos a have "0 < m" by (simp add: zero_less_mult_iff)
    with m show "\<exists>m > 0. ?n = m * ?k" by (auto simp: mult.commute)
  next
    assume "\<exists>m > 0. ?n = m * ?k"
    then obtain m where m: "0 < m" "?n = m * ?k" by blast
    with npos have "0 < ?k" by (simp add: zero_less_mult_iff)
    with m show "0 < ?k \<and> ?n mod ?k = 0" by simp
  qed
  then show ?thesis by (auto simp: spec_loot_due_def)
qed

text \<open>
  C6. After a kill that completes, the kill counter has gone up by one, and exactly one
  \<open>get lantern\<close> follows the \<open>kill rat\<close>, with the gets counter up by one, iff looting is
  enabled and the new kill count is an exact positive multiple of the interval. Whatever
  the outcome, no \<open>get lantern\<close> is sent and the gets counter stays when that condition
  fails (in particular when looting is disabled), and at most one is sent. For the
  interval 6 the condition is that 6 divides the new count.
\<close>

theorem bot_kill_loot:
  assumes "bot_kill cfg b = (r, b')" and "0 \<le> kills (bot_stats b)"
  shows "\<exists>sent.
           outbox (bot_ws b') = outbox (bot_ws b) @ sent
         \<and> (r = Inr () \<longrightarrow>
               kills (bot_stats b') = kills (bot_stats b) + 1
             \<and> sent = (''kill rat'' @ [LF])
                      # (if spec_loot_due cfg (kills (bot_stats b) + 1)
                         then [''get lantern'' @ [LF]] else [])
             \<and> gets (bot_stats b')
                 = gets (bot_stats b) + (if spec_loot_due cfg (kills (bot_stats b) + 1) then 1 else 0))
         \<and> (\<not> spec_loot_due cfg (kills (bot_stats b) + 1) \<longrightarrow>
               (''get lantern'' @ [LF]) \<notin> set sent \<and> gets (bot_stats b') = gets (bot_stats b))
         \<and> count_list sent (''get lantern'' @ [LF]) \<le> 1
         \<and> (\<not> get_lantern cfg \<longrightarrow> \<not> spec_loot_due cfg (kills (bot_stats b) + 1))
         \<and> (get_lantern cfg \<and> get_every cfg = 6 \<longrightarrow>
               spec_loot_due cfg (kills (bot_stats b) + 1) = ((kills (bot_stats b) + 1) mod 6 = 0))"
proof -
  let ?n = "kills (bot_stats b) + 1"
  let ?kill = "''kill rat'' @ [LF]" and ?get = "''get lantern'' @ [LF]"
  have due: "(get_lantern cfg \<and> 0 < get_every cfg \<and> ?n mod get_every cfg = 0)
             \<longleftrightarrow> spec_loot_due cfg ?n"
    using assms(2) by (rule loot_due_iff)
  have off: "\<not> get_lantern cfg \<longrightarrow> \<not> spec_loot_due cfg ?n"
    by (simp add: spec_loot_due_def)
  have six: "get_lantern cfg \<and> get_every cfg = 6 \<longrightarrow> spec_loot_due cfg ?n = (?n mod 6 = 0)"
    using due by auto
  obtain r1 b1 where c1: "bot_command cfg b ''kill rat'' = (r1, b1)"
    by (cases "bot_command cfg b ''kill rat''")
  note e1 = bot_command_effect [OF c1]
  show ?thesis
  proof (cases r1)
    case (Inl e)
    with assms(1) c1 have res: "r = Inl e" "b' = b1"
      by (simp_all add: bot_kill_def)
    from e1(2) show ?thesis
    proof
      assume "outbox (bot_ws b1) = outbox (bot_ws b) @ [?kill]"
      with res e1(1) off six show ?thesis
        by (intro exI [of _ "[?kill]"]) simp
    next
      assume "r1 \<noteq> Inr () \<and> outbox (bot_ws b1) = outbox (bot_ws b)"
      with res e1(1) off six show ?thesis
        by (intro exI [of _ "[]"]) simp
    qed
  next
    case r1: (Inr u)
    with e1(2) have o1: "outbox (bot_ws b1) = outbox (bot_ws b) @ [?kill]"
      by simp
    define b2 where "b2 = b1\<lparr>bot_stats := (bot_stats b1)\<lparr>kills := kills (bot_stats b1) + 1\<rparr>\<rparr>"
    have k2: "kills (bot_stats b2) = ?n" and g2: "gets (bot_stats b2) = gets (bot_stats b)"
      and o2: "outbox (bot_ws b2) = outbox (bot_ws b) @ [?kill]"
      using e1(1) o1 by (simp_all add: b2_def)
    have cond: "(get_lantern cfg \<and> 0 < get_every cfg
                  \<and> (kills (bot_stats b1) + 1) mod get_every cfg = 0)
                \<longleftrightarrow> spec_loot_due cfg ?n"
      using due e1(1) by simp
    have bk: "bot_kill cfg b =
        (if spec_loot_due cfg ?n then
           (case bot_command cfg b2 ''get lantern'' of
              (Inl e, b3) \<Rightarrow> (Inl e, b3)
            | (Inr _, b3) \<Rightarrow>
                (Inr (), b3\<lparr>bot_stats := (bot_stats b3)\<lparr>gets := gets (bot_stats b3) + 1\<rparr>\<rparr>))
         else (Inr (), b2))"
      unfolding bot_kill_def c1 r1 b2_def Let_def
      by (simp add: cond del: One_nat_def)
    show ?thesis
    proof (cases "spec_loot_due cfg ?n")
      case False
      with assms(1) bk have res: "r = Inr ()" "b' = b2"
        by simp_all
      with False k2 g2 o2 off six show ?thesis
        by (intro exI [of _ "[?kill]"]) simp
    next
      case True
      obtain r3 b3 where c3: "bot_command cfg b2 ''get lantern'' = (r3, b3)"
        by (cases "bot_command cfg b2 ''get lantern''")
      note e3 = bot_command_effect [OF c3]
      show ?thesis
      proof (cases r3)
        case (Inl e)
        with assms(1) bk True c3 have res: "r = Inl e" "b' = b3"
          by simp_all
        from e3(2) show ?thesis
        proof
          assume "outbox (bot_ws b3) = outbox (bot_ws b2) @ [?get]"
          with res True o2 off six show ?thesis
            by (intro exI [of _ "[?kill, ?get]"]) simp
        next
          assume "r3 \<noteq> Inr () \<and> outbox (bot_ws b3) = outbox (bot_ws b2)"
          with res True o2 off six show ?thesis
            by (intro exI [of _ "[?kill]"]) simp
        qed
      next
        case r3: (Inr v)
        with assms(1) bk True c3
        have res: "r = Inr ()"
          "b' = b3\<lparr>bot_stats := (bot_stats b3)\<lparr>gets := gets (bot_stats b3) + 1\<rparr>\<rparr>"
          by simp_all
        from e3(2) r3 have o3: "outbox (bot_ws b3) = outbox (bot_ws b2) @ [?get]"
          by simp
        with res True e3(1) k2 g2 o2 off six show ?thesis
          by (intro exI [of _ "[?kill, ?get]"]) simp
      qed
    qed
  qed
qed

lemmas bot_eval_defs =
  bot_kill_def bot_command_def send_and_wait_prompt_def send_line_def ws_send_def
  connection_lost_def recv_until_prompt_def recv_until_prompt_loop.simps
  recv_with_timeout_def observe_incoming_def sent_command_def looks_like_prompt_spec
  prompt_eval_defs Let_def

lemma demo_kill_1:
  "bot_command cfg_kill_only demo_bot ''kill rat'' =
     (Inr (),
      demo_bot\<lparr>bot_ws := (bot_ws demo_bot)
                  \<lparr>now := 11, inbox := tl (inbox (bot_ws demo_bot)), recv_calls := 8,
                   outbox := [''look'' @ [LF], ''kill rat'' @ [LF]]\<rparr>\<rparr>)"
  by (simp add: cfg_kill_only_def demo_bot_def bot_eval_defs)

lemma demo_kill_2:
  "bot_command cfg_kill_only
     (demo_bot\<lparr>bot_ws := (bot_ws demo_bot)
                  \<lparr>now := 11, inbox := tl (inbox (bot_ws demo_bot)), recv_calls := 8,
                   outbox := [''look'' @ [LF], ''kill rat'' @ [LF]]\<rparr>,
               bot_stats := \<lparr>kills = 6, moves = 2, gets = 0\<rparr>\<rparr>) ''get lantern'' =
     (Inr (),
      demo_bot\<lparr>bot_ws := (bot_ws demo_bot)
                  \<lparr>now := 12, inbox := [], recv_calls := 9,
                   outbox := [''look'' @ [LF], ''kill rat'' @ [LF], ''get lantern'' @ [LF]]\<rparr>,
               bot_stats := \<lparr>kills = 6, moves = 2, gets = 0\<rparr>\<rparr>)"
  by (simp add: cfg_kill_only_def demo_bot_def bot_eval_defs)

lemma demo_kill:
  "bot_kill cfg_kill_only demo_bot =
     (Inr (),
      demo_bot\<lparr>bot_ws := (bot_ws demo_bot)
                  \<lparr>now := 12, inbox := [], recv_calls := 9,
                   outbox := [''look'' @ [LF], ''kill rat'' @ [LF], ''get lantern'' @ [LF]]\<rparr>,
               bot_stats := \<lparr>kills = 6, moves = 2, gets = 1\<rparr>\<rparr>)"
proof -
  have "get_lantern cfg_kill_only" "get_every cfg_kill_only = 6"
    by (simp_all add: cfg_kill_only_def)
  moreover have "bot_stats demo_bot = \<lparr>kills = 5, moves = 2, gets = 0\<rparr>"
    by (simp add: demo_bot_def)
  ultimately show ?thesis
    unfolding bot_kill_def demo_kill_1
    using demo_kill_2 by (simp add: demo_bot_def)
qed

theorem bot_kill_loot_witness:
  "bot_kill cfg_kill_only demo_bot =
     (Inr (),
      demo_bot\<lparr>bot_ws := (bot_ws demo_bot)
                  \<lparr>now := 12, inbox := [], recv_calls := 9,
                   outbox := [''look'' @ [LF], ''kill rat'' @ [LF], ''get lantern'' @ [LF]]\<rparr>,
               bot_stats := \<lparr>kills = 6, moves = 2, gets = 1\<rparr>\<rparr>)
   \<and> spec_loot_due cfg_kill_only 6"
proof -
  have k: "0 \<le> kills (bot_stats demo_bot)"
    by (simp add: demo_bot_def)
  from bot_kill_loot [OF demo_kill k]
  have "spec_loot_due cfg_kill_only 6"
    by (simp add: cfg_kill_only_def demo_bot_def)
  with demo_kill show ?thesis by simp
qed

section \<open>The area converter: properties\<close>

lemma set_update_subset: "set (AList.update k v al) \<subseteq> insert (k, v) (set al)"
  by (induction al) auto

lemma keys_update: "fst ` set (AList.update k v al) = insert k (fst ` set al)"
  by (induction al) auto

lemma fold_update_entries:
  assumes "\<And>x acc. step x acc = (if P x then AList.update (f x) (g x) acc else acc)"
  shows "set (fold step xs acc) \<subseteq> set acc \<union> {(f x, g x) | x. x \<in> set xs \<and> P x}"
proof (induction xs arbitrary: acc)
  case Nil
  show ?case by simp
next
  case (Cons x xs)
  show ?case
    using Cons [of "step x acc"] set_update_subset [of "f x" "g x" acc]
    by (auto simp: assms split: if_splits)
qed

lemma fold_update_keys:
  assumes "\<And>x acc. step x acc = (if P x then AList.update (f x) (g x) acc else acc)"
  shows "fst ` set (fold step xs acc) = fst ` set acc \<union> f ` {x \<in> set xs. P x}"
proof (induction xs arbitrary: acc)
  case Nil
  show ?case by simp
next
  case (Cons x xs)
  show ?case
    by (simp add: Cons) (auto simp: assms keys_update)
qed

lemma dict_update_Cons: "dict_update d ((k, v) # xs) = dict_update (AList.update k v d) xs"
  by (simp add: dict_update_def)

lemma dict_update_entries: "set (dict_update d other) \<subseteq> set d \<union> set other"
proof (induction other arbitrary: d)
  case Nil
  show ?case by (simp add: dict_update_def)
next
  case (Cons x xs)
  obtain k v where x: "x = (k, v)" by (cases x)
  from Cons [of "AList.update k v d"] set_update_subset [of k v d] show ?case
    unfolding x dict_update_Cons by auto
qed

lemma dict_update_distinct:
  "distinct (map fst d) \<Longrightarrow> distinct (map fst (dict_update d other))"
proof (induction other arbitrary: d)
  case Nil
  then show ?case by (simp add: dict_update_def)
next
  case (Cons x xs)
  obtain k v where x: "x = (k, v)" by (cases x)
  from Cons.prems have "distinct (map fst (AList.update k v d))"
    by (rule distinct_update)
  then show ?case
    unfolding x dict_update_Cons by (rule Cons.IH)
qed

lemma dict_of_entries: "set (dict_of xs) \<subseteq> set xs"
  unfolding dict_of_def using dict_update_entries [of "[]" xs] by simp

lemma emit_rooms_fold:
  "emit_rooms rooms = fold (\<lambda>x acc. AList.update (rid (fst x)) (room_entry rooms x) acc) rooms []"
  unfolding emit_rooms_def room_entry_def by (simp add: case_prod_unfold)

lemma emit_mobs_fold:
  "emit_mobs rooms mobs =
     fold (\<lambda>x acc. if room_parsed rooms (Mob.room_vnum (snd x))
                    then AList.update (''m'' @ fst x) (mob_entry x) acc else acc) mobs []"
proof -
  have "(\<lambda>(v, m) acc.
           case Mob.room_vnum m of
             None \<Rightarrow> acc
           | Some rv \<Rightarrow>
               if has_key rooms rv then
                 AList.update (''m'' @ v)
                   (PDict [(''name'', PStr (Mob.name m)), (''room'', PStr (rid rv)),
                           (''tier'', PStr ''standard''), (''level'', PInt 1)])
                   acc
               else acc)
      = (\<lambda>x acc. if room_parsed rooms (Mob.room_vnum (snd x))
                    then AList.update (''m'' @ fst x) (mob_entry x) acc else acc)"
    by (auto simp: fun_eq_iff room_parsed_def mob_entry_def split: option.splits)
  then show ?thesis
    unfolding emit_mobs_def by (rule arg_cong [where f = "\<lambda>s. fold s mobs []"])
qed

lemma emit_items_fold:
  "emit_items rooms items =
     fold (\<lambda>x acc. AList.update (''i'' @ fst x) (item_entry rooms x) acc) items []"
proof -
  have "(\<lambda>(v, it) acc.
             let kw = hd (py_split_on CHR ''_'' (slug (Item.name it)));
                 kw = (if kw \<noteq> [] then kw else ''item'' @ v);
                 e = [(''displayName'', PStr (Item.name it)),
                      (''description'', PStr ''Imported from ROM area file.''),
                      (''keyword'', PStr kw)];
                 e = (case Item.room_vnum it of
                        None \<Rightarrow> e
                      | Some rv \<Rightarrow>
                          if has_key rooms rv then AList.update ''room'' (PStr (rid rv)) e else e)
             in AList.update (''i'' @ v) (PDict e) acc)
      = (\<lambda>x acc. AList.update (''i'' @ fst x) (item_entry rooms x) acc)"
    by (auto simp: fun_eq_iff room_parsed_def item_entry_def Let_def split: option.splits)
  then show ?thesis
    unfolding emit_items_def by (rule arg_cong [where f = "\<lambda>s. fold s items []"])
qed

lemma emit_rooms_keys: "fst ` set (emit_rooms rooms) = rid ` fst ` set rooms"
  unfolding emit_rooms_fold
  using fold_update_keys [where P = "\<lambda>x. True" and f = "\<lambda>x. rid (fst x)"
          and g = "room_entry rooms" and xs = rooms and acc = "[]"
          and step = "\<lambda>x acc. AList.update (rid (fst x)) (room_entry rooms x) acc"]
  by auto

lemma emit_rooms_entries:
  assumes "(rk, room) \<in> set (emit_rooms rooms)"
  shows "\<exists>x \<in> set rooms. rk = rid (fst x) \<and> room = room_entry rooms x"
proof -
  have sub: "set (emit_rooms rooms)
        \<subseteq> set [] \<union> {(rid (fst x), room_entry rooms x) | x. x \<in> set rooms \<and> True}"
    unfolding emit_rooms_fold by (rule fold_update_entries) simp
  from subsetD [OF sub assms] have "(rk, room) \<in> {(rid (fst x), room_entry rooms x) | x. x \<in> set rooms \<and> True}"
    by simp
  then obtain x where "x \<in> set rooms" "rk = rid (fst x)" "room = room_entry rooms x"
    by blast
  then show ?thesis by blast
qed

lemma emit_mobs_keys:
  "fst ` set (emit_mobs rooms mobs)
     = (\<lambda>x. ''m'' @ fst x) ` {x \<in> set mobs. room_parsed rooms (Mob.room_vnum (snd x))}"
  unfolding emit_mobs_fold
  by (rule fold_update_keys [where acc = "[]", simplified]) simp

lemma emit_mobs_entries:
  assumes "(mk, mob) \<in> set (emit_mobs rooms mobs)"
  shows "\<exists>x \<in> set mobs. room_parsed rooms (Mob.room_vnum (snd x))
           \<and> mk = ''m'' @ fst x \<and> mob = mob_entry x"
proof -
  have sub: "set (emit_mobs rooms mobs)
        \<subseteq> set [] \<union> {(''m'' @ fst x, mob_entry x) | x.
                         x \<in> set mobs \<and> room_parsed rooms (Mob.room_vnum (snd x))}"
    unfolding emit_mobs_fold by (rule fold_update_entries) simp
  from subsetD [OF sub assms] have "(mk, mob) \<in> {(''m'' @ fst x, mob_entry x) | x.
                         x \<in> set mobs \<and> room_parsed rooms (Mob.room_vnum (snd x))}"
    by simp
  then obtain x where "x \<in> set mobs" "room_parsed rooms (Mob.room_vnum (snd x))"
    "mk = ''m'' @ fst x" "mob = mob_entry x"
    by blast
  then show ?thesis by blast
qed

lemma emit_items_keys: "fst ` set (emit_items rooms items) = (\<lambda>x. ''i'' @ fst x) ` set items"
  unfolding emit_items_fold
  using fold_update_keys [where P = "\<lambda>x. True" and f = "\<lambda>x. ''i'' @ fst x"
          and g = "item_entry rooms" and xs = items and acc = "[]"
          and step = "\<lambda>x acc. AList.update (''i'' @ fst x) (item_entry rooms x) acc"]
  by auto

lemma emit_items_entries:
  assumes "(ik, item) \<in> set (emit_items rooms items)"
  shows "\<exists>x \<in> set items. ik = ''i'' @ fst x \<and> item = item_entry rooms x"
proof -
  have sub: "set (emit_items rooms items)
        \<subseteq> set [] \<union> {(''i'' @ fst x, item_entry rooms x) | x. x \<in> set items \<and> True}"
    unfolding emit_items_fold by (rule fold_update_entries) simp
  from subsetD [OF sub assms] have "(ik, item) \<in> {(''i'' @ fst x, item_entry rooms x) | x. x \<in> set items \<and> True}"
    by simp
  then obtain x where "x \<in> set items" "ik = ''i'' @ fst x" "item = item_entry rooms x"
    by blast
  then show ?thesis by blast
qed

lemma keys_map_entry: "map fst (AList.map_entry k f al) = map fst al"
  by (induction al) auto

lemma parse_resets_loop_keys:
  "map fst (fst (snd (parse_resets_loop lines i room mobs items))) = map fst mobs
   \<and> map fst (snd (snd (parse_resets_loop lines i room mobs items))) = map fst items"
proof (induction lines i room mobs items rule: parse_resets_loop.induct)
  case (1 lines i room mobs items)
  let ?line = "py_strip (lines ! i)"
  let ?parts = "py_split_ws ?line"
  let ?code = "if ?parts \<noteq> [] then ?parts ! 0 else []"
  let ?M = "?code = ''M'' \<and> length ?parts \<ge> 5 \<and> has_key mobs (?parts ! 2)"
  let ?O = "?code = ''O'' \<and> length ?parts \<ge> 4 \<and> has_key items (?parts ! 2)"
  let ?G = "?code = ''G'' \<and> length ?parts \<ge> 3 \<and> room \<noteq> None \<and> room \<noteq> Some []
            \<and> has_key items (?parts ! 2)"
  note unfold = parse_resets_loop.simps [of lines i room mobs items]
  show ?case
  proof (cases "i < length lines")
    case False
    then show ?thesis by (simp add: unfold)
  next
    case inside: True
    show ?thesis
    proof (cases "?line = ''S''")
      case True
      with inside show ?thesis by (simp add: unfold)
    next
      case not_S: False
      show ?thesis
      proof (cases ?M)
        case M: True
        from "1.IH"(1) [OF inside refl not_S refl refl M] inside not_S M show ?thesis
          by (subst (1 2) unfold) (simp only: Let_def if_True if_False simp_thms keys_map_entry)
      next
        case not_M: False
        show ?thesis
        proof (cases ?O)
          case O: True
          from "1.IH"(2) [OF inside refl not_S refl refl not_M O] inside not_S not_M O
          show ?thesis
            by (subst (1 2) unfold) (simp only: Let_def if_True if_False simp_thms keys_map_entry)
        next
          case not_O: False
          show ?thesis
          proof (cases ?G)
            case G: True
            from "1.IH"(3) [OF inside refl not_S refl refl not_M not_O G]
              inside not_S not_M not_O G
            show ?thesis
              by (subst (1 2) unfold)
                 (simp only: Let_def if_True if_False simp_thms keys_map_entry)
          next
            case not_G: False
            from "1.IH"(4) [OF inside refl not_S refl refl not_M not_O not_G]
              inside not_S not_M not_O not_G
            show ?thesis
              by (subst (1 2) unfold)
                 (simp only: Let_def if_True if_False simp_thms keys_map_entry)
          qed
        qed
      qed
    qed
  qed
qed

lemma parse_sections_distinct:
  assumes "parse_sections lines i rooms mobs items = Inr (rooms', mobs', items')"
    and "distinct (map fst rooms)" and "distinct (map fst mobs)" and "distinct (map fst items)"
  shows "distinct (map fst rooms') \<and> distinct (map fst mobs') \<and> distinct (map fst items')"
  using assms
proof (induction "length lines - i" arbitrary: i rooms mobs items rule: less_induct)
  case less
  note unfold = parse_sections.simps [of lines i rooms mobs items]
  show ?case
  proof (cases "i < length lines")
    case False
    with less.prems show ?thesis by (simp add: unfold)
  next
    case inside: True
    let ?s = "py_strip (lines ! i)"
    show ?thesis
    proof (cases "?s = ''#ROOMS''")
      case True
      with less.prems(1) inside obtain j r where
        p: "parse_rooms lines (i + 1) = Inr (j, r)"
        and rest: "parse_sections lines j (dict_update rooms r) mobs items
                   = Inr (rooms', mobs', items')"
        by (auto simp: unfold Let_def split: sum.splits)
      from parse_rooms_ge [OF p] inside have "length lines - j < length lines - i"
        by simp
      from less.hyps [OF this rest dict_update_distinct [OF less.prems(2)] less.prems(3,4)]
      show ?thesis .
    next
      case not_rooms: False
      show ?thesis
      proof (cases "?s = ''#MOBILES''")
        case True
        with less.prems(1) inside not_rooms obtain j m where
          p: "parse_entities lines (i + 1) ''#MOBILES'' = Inr (j, m)"
          and rest: "parse_sections lines j rooms
                       (dict_update mobs
                          (dict_of (map (\<lambda>(k, v). (k, \<lparr>Mob.vnum = k, name = v, room_vnum = None\<rparr>)) m)))
                       items
                     = Inr (rooms', mobs', items')"
          by (auto simp: unfold Let_def split: sum.splits)
        from parse_entities_ge [OF p] inside have "length lines - j < length lines - i"
          by simp
        from less.hyps [OF this rest less.prems(2) dict_update_distinct [OF less.prems(3)]
            less.prems(4)]
        show ?thesis .
      next
        case not_mobs: False
        show ?thesis
        proof (cases "?s = ''#OBJECTS''")
          case True
          with less.prems(1) inside not_rooms not_mobs obtain j ob where
            p: "parse_entities lines (i + 1) ''#OBJECTS'' = Inr (j, ob)"
            and rest: "parse_sections lines j rooms mobs
                         (dict_update items
                            (dict_of (map (\<lambda>(k, v). (k, \<lparr>Item.vnum = k, name = v, room_vnum = None\<rparr>)) ob)))
                       = Inr (rooms', mobs', items')"
            by (auto simp: unfold Let_def split: sum.splits)
          from parse_entities_ge [OF p] inside have "length lines - j < length lines - i"
            by simp
          from less.hyps [OF this rest less.prems(2,3) dict_update_distinct [OF less.prems(4)]]
          show ?thesis .
        next
          case not_objs: False
          show ?thesis
          proof (cases "?s = ''#RESETS''")
            case True
            obtain j ms its where p: "parse_resets lines (i + 1) mobs items = (j, ms, its)"
              by (cases "parse_resets lines (i + 1) mobs items")
            with less.prems(1) inside not_rooms not_mobs not_objs True
            have rest: "parse_sections lines j rooms ms its = Inr (rooms', mobs', items')"
              by (simp add: unfold Let_def)
            from parse_resets_loop_keys [of lines "i + 1" None mobs items] p
            have keys: "map fst ms = map fst mobs" "map fst its = map fst items"
              by (simp_all add: parse_resets_def)
            from parse_resets_ge [OF p] inside have "length lines - j < length lines - i"
              by simp
            from less.hyps [OF this rest less.prems(2)] keys less.prems(3,4)
            show ?thesis by simp
          next
            case False
            with less.prems(1) inside not_rooms not_mobs not_objs
            have rest: "parse_sections lines (i + 1) rooms mobs items = Inr (rooms', mobs', items')"
              by (simp add: unfold Let_def)
            have "length lines - (i + 1) < length lines - i"
              using inside by simp
            from less.hyps [OF this rest less.prems(2,3,4)]
            show ?thesis .
          qed
        qed
      qed
    qed
  qed
qed

lemma room_entry_exits:
  assumes "(d, t) \<in> set (entries (room_entry rooms x) ''exits'')"
  shows "\<exists>v. t = PStr (rid v) \<and> has_key rooms v"
proof -
  have eq: "entries (room_entry rooms x) ''exits''
        = dict_of (map (\<lambda>(d, t). (d, PStr (rid t)))
                     (filter (\<lambda>(d, t). has_key rooms t) (Room.exits (snd x))))"
    by (simp add: room_entry_def entries_def)
  from assms have "(d, t) \<in> set (dict_of (map (\<lambda>(d, t). (d, PStr (rid t)))
                     (filter (\<lambda>(d, t). has_key rooms t) (Room.exits (snd x)))))"
    unfolding eq .
  then have "(d, t) \<in> set (map (\<lambda>(d, t). (d, PStr (rid t)))
                          (filter (\<lambda>(d, t). has_key rooms t) (Room.exits (snd x))))"
    by (rule subsetD [OF dict_of_entries])
  then show ?thesis by auto
qed

lemma mob_entry_room: "dict_get (mob_entry x) ''room'' = Some (PStr (rid (the (Mob.room_vnum (snd x)))))"
  by (simp add: mob_entry_def)

lemma item_entry_room:
  "dict_get (item_entry rooms x) ''room''
     = (if room_parsed rooms (Item.room_vnum (snd x))
        then Some (PStr (rid (the (Item.room_vnum (snd x))))) else None)"
  by (simp add: item_entry_def Let_def)

lemma room_parsed_key:
  "room_parsed rooms rv \<Longrightarrow> has_key (emit_rooms rooms) (rid (the rv))"
  using emit_rooms_keys [of rooms]
  by (auto simp: room_parsed_def has_key_def split: option.splits)

lemma emit_closed:
  fixes rooms mobs items stem
  defines "out \<equiv> PDict [(''zone'', PStr (slug stem)), (''lifespan'', PInt 30),
                         (''startRoom'', PStr (rid (fst (hd rooms)))),
                         (''rooms'', PDict (emit_rooms rooms)),
                         (''mobs'', PDict (emit_mobs rooms mobs)),
                         (''items'', PDict (emit_items rooms items))]"
  shows "entries out ''rooms'' = emit_rooms rooms"
    and "entries out ''mobs'' = emit_mobs rooms mobs"
    and "entries out ''items'' = emit_items rooms items"
    and "referentially_closed out"
proof -
  show er: "entries out ''rooms'' = emit_rooms rooms"
    and em: "entries out ''mobs'' = emit_mobs rooms mobs"
    and ei: "entries out ''items'' = emit_items rooms items"
    by (simp_all add: out_def entries_def)
  have key: "names_room out (PStr (rid v))" if "has_key rooms v" for v
    using that emit_rooms_keys [of rooms] by (auto simp: names_room_def er has_key_def)
  have rooms_ok: "list_all (\<lambda>(d, t). names_room out t) (entries room ''exits'')"
    if "(rk, room) \<in> set (emit_rooms rooms)" for rk room
  proof -
    from emit_rooms_entries [OF that] obtain x where x: "room = room_entry rooms x"
      by blast
    show ?thesis
      unfolding list_all_iff x
      using room_entry_exits [of _ _ rooms x] key by fastforce
  qed
  have mobs_ok: "(case dict_get mob ''room'' of Some t \<Rightarrow> names_room out t | None \<Rightarrow> False)"
    if "(mk, mob) \<in> set (emit_mobs rooms mobs)" for mk mob
  proof -
    from emit_mobs_entries [OF that] obtain x where
      x: "room_parsed rooms (Mob.room_vnum (snd x))" "mob = mob_entry x"
      by blast
    from x(1) obtain v where "Mob.room_vnum (snd x) = Some v" "has_key rooms v"
      by (auto simp: room_parsed_def split: option.splits)
    with key [of v] show ?thesis
      by (simp add: x(2) mob_entry_room)
  qed
  have items_ok: "(case dict_get item ''room'' of Some t \<Rightarrow> names_room out t | None \<Rightarrow> True)"
    if "(ik, item) \<in> set (emit_items rooms items)" for ik item
  proof -
    from emit_items_entries [OF that] obtain x where x: "item = item_entry rooms x"
      by blast
    show ?thesis
    proof (cases "room_parsed rooms (Item.room_vnum (snd x))")
      case True
      then obtain v where "Item.room_vnum (snd x) = Some v" "has_key rooms v"
        by (auto simp: room_parsed_def split: option.splits)
      with key [of v] True show ?thesis
        by (simp add: x item_entry_room)
    next
      case False
      then show ?thesis by (simp add: x item_entry_room)
    qed
  qed
  show "referentially_closed out"
    unfolding referentially_closed_def er em ei
  proof (intro conjI)
    show "list_all (\<lambda>(rk, room). list_all (\<lambda>(d, t). names_room out t) (entries room ''exits''))
            (emit_rooms rooms)"
      unfolding list_all_iff [of _ "emit_rooms rooms"] using rooms_ok by blast
    show "list_all (\<lambda>(mk, mob). case dict_get mob ''room'' of
                                    Some t \<Rightarrow> names_room out t | None \<Rightarrow> False)
            (emit_mobs rooms mobs)"
      unfolding list_all_iff using mobs_ok by blast
    show "list_all (\<lambda>(ik, item). case dict_get item ''room'' of
                                     Some t \<Rightarrow> names_room out t | None \<Rightarrow> True)
            (emit_items rooms items)"
      unfolding list_all_iff using items_ok by blast
  qed
qed

text \<open>
  C10. Whenever \<open>parse_area\<close> returns an output, the output is closed over its rooms:
  every exit of every room of the output leads to a key of the rooms map, every mob of the
  output has a room field that names such a key, and a room field of an item, where there
  is one, names such a key. With the rooms, mobs and items that were parsed: the keys of
  the rooms map are the ids of the parsed rooms; a parsed mob is in the output iff the
  room of its reset is a parsed room, and then its room field is that room's id; every
  parsed item is in the output, and it has a room field, that room's id, iff the room of
  its reset is a parsed room.
\<close>

theorem parse_area_referentially_closed:
  assumes "parse_area stem lines = Inr out"
  shows "referentially_closed out
       \<and> (\<exists>rooms mobs items.
             parse_sections lines 0 [] [] [] = Inr (rooms, mobs, items)
           \<and> distinct (map fst rooms) \<and> distinct (map fst mobs) \<and> distinct (map fst items)
           \<and> fst ` set (entries out ''rooms'') = rid ` fst ` set rooms
           \<and> (\<forall>(v, m) \<in> set mobs.
                 has_key (entries out ''mobs'') (''m'' @ v) = room_parsed rooms (Mob.room_vnum m))
           \<and> (\<forall>(mk, mob) \<in> set (entries out ''mobs'').
                 \<exists>(v, m) \<in> set mobs. mk = ''m'' @ v \<and> room_parsed rooms (Mob.room_vnum m)
                   \<and> dict_get mob ''room'' = Some (PStr (rid (the (Mob.room_vnum m)))))
           \<and> fst ` set (entries out ''items'') = (\<lambda>v. ''i'' @ v) ` fst ` set items
           \<and> (\<forall>(ik, item) \<in> set (entries out ''items'').
                 \<exists>(v, it) \<in> set items. ik = ''i'' @ v
                   \<and> dict_get item ''room''
                       = (if room_parsed rooms (Item.room_vnum it)
                          then Some (PStr (rid (the (Item.room_vnum it)))) else None)))"
proof -
  from assms obtain rooms mobs items where
    p: "parse_sections lines 0 [] [] [] = Inr (rooms, mobs, items)"
    and out: "out = PDict [(''zone'', PStr (slug stem)), (''lifespan'', PInt 30),
                          (''startRoom'', PStr (rid (fst (hd rooms)))),
                          (''rooms'', PDict (emit_rooms rooms)),
                          (''mobs'', PDict (emit_mobs rooms mobs)),
                          (''items'', PDict (emit_items rooms items))]"
    by (auto simp: parse_area_def split: sum.splits if_splits)
  note e = emit_closed [of stem rooms mobs items, folded out]
  from parse_sections_distinct [OF p] have
    dist: "distinct (map fst rooms)" "distinct (map fst mobs)" "distinct (map fst items)"
    by simp_all
  have mob_keys: "\<forall>(v, m) \<in> set mobs.
      has_key (entries out ''mobs'') (''m'' @ v) = room_parsed rooms (Mob.room_vnum m)"
  proof (clarify, rule iffI)
    fix v m
    assume that: "(v, m) \<in> set mobs"
    assume "has_key (entries out ''mobs'') (''m'' @ v)"
    then obtain x where x: "x \<in> set mobs" "room_parsed rooms (Mob.room_vnum (snd x))"
      "''m'' @ fst x = ''m'' @ v"
      unfolding has_key_def e(2) emit_mobs_keys by auto
    from x(3) have "fst x = v" by simp
    with x(1) that dist(2) have "snd x = m"
      by (metis eq_key_imp_eq_value prod.collapse)
    with x(2) show "room_parsed rooms (Mob.room_vnum m)" by simp
  next
    fix v m
    assume "(v, m) \<in> set mobs" and "room_parsed rooms (Mob.room_vnum m)"
    then show "has_key (entries out ''mobs'') (''m'' @ v)"
      unfolding has_key_def e(2) emit_mobs_keys by force
  qed
  have mob_rooms: "\<forall>(mk, mob) \<in> set (entries out ''mobs'').
      \<exists>(v, m) \<in> set mobs. mk = ''m'' @ v \<and> room_parsed rooms (Mob.room_vnum m)
        \<and> dict_get mob ''room'' = Some (PStr (rid (the (Mob.room_vnum m))))"
  proof clarify
    fix mk mob
    assume that: "(mk, mob) \<in> set (entries out ''mobs'')"
    from that emit_mobs_entries [of mk mob rooms mobs] obtain x where
      "x \<in> set mobs" "room_parsed rooms (Mob.room_vnum (snd x))" "mk = ''m'' @ fst x"
      "mob = mob_entry x"
      unfolding e(2) by blast
    then show "\<exists>(v, m) \<in> set mobs. mk = ''m'' @ v \<and> room_parsed rooms (Mob.room_vnum m)
        \<and> dict_get mob ''room'' = Some (PStr (rid (the (Mob.room_vnum m))))"
      by (intro bexI [of _ x]) (simp_all add: case_prod_unfold mob_entry_room)
  qed
  have item_keys: "fst ` set (entries out ''items'') = (\<lambda>v. ''i'' @ v) ` fst ` set items"
    unfolding e(3) emit_items_keys by (simp add: image_image)
  have item_rooms: "\<forall>(ik, item) \<in> set (entries out ''items'').
      \<exists>(v, it) \<in> set items. ik = ''i'' @ v
        \<and> dict_get item ''room''
            = (if room_parsed rooms (Item.room_vnum it)
               then Some (PStr (rid (the (Item.room_vnum it)))) else None)"
  proof clarify
    fix ik item
    assume that: "(ik, item) \<in> set (entries out ''items'')"
    from that emit_items_entries [of ik item rooms items] obtain x where
      "x \<in> set items" "ik = ''i'' @ fst x" "item = item_entry rooms x"
      unfolding e(3) by blast
    then show "\<exists>(v, it) \<in> set items. ik = ''i'' @ v
        \<and> dict_get item ''room''
            = (if room_parsed rooms (Item.room_vnum it)
               then Some (PStr (rid (the (Item.room_vnum it)))) else None)"
      by (intro bexI [of _ x]) (simp_all add: case_prod_unfold item_entry_room)
  qed
  have room_keys: "fst ` set (entries out ''rooms'') = rid ` fst ` set rooms"
    unfolding e(1) by (rule emit_rooms_keys)
  from p dist room_keys mob_keys mob_rooms item_keys item_rooms
  have "\<exists>rooms mobs items.
             parse_sections lines 0 [] [] [] = Inr (rooms, mobs, items)
           \<and> distinct (map fst rooms) \<and> distinct (map fst mobs) \<and> distinct (map fst items)
           \<and> fst ` set (entries out ''rooms'') = rid ` fst ` set rooms
           \<and> (\<forall>(v, m) \<in> set mobs.
                 has_key (entries out ''mobs'') (''m'' @ v) = room_parsed rooms (Mob.room_vnum m))
           \<and> (\<forall>(mk, mob) \<in> set (entries out ''mobs'').
                 \<exists>(v, m) \<in> set mobs. mk = ''m'' @ v \<and> room_parsed rooms (Mob.room_vnum m)
                   \<and> dict_get mob ''room'' = Some (PStr (rid (the (Mob.room_vnum m)))))
           \<and> fst ` set (entries out ''items'') = (\<lambda>v. ''i'' @ v) ` fst ` set items
           \<and> (\<forall>(ik, item) \<in> set (entries out ''items'').
                 \<exists>(v, it) \<in> set items. ik = ''i'' @ v
                   \<and> dict_get item ''room''
                       = (if room_parsed rooms (Item.room_vnum it)
                          then Some (PStr (rid (the (Item.room_vnum it)))) else None))"
    by (intro exI [of _ rooms] exI [of _ mobs] exI [of _ items] conjI)
  with e(4) show ?thesis
    by (rule conjI)
qed

lemma demo_parse: "parse_area ''demo'' demo_area = Inr demo_out"
  by code_simp

theorem parse_area_referentially_closed_witness:
  "parse_area ''demo'' demo_area = Inr demo_out \<and> referentially_closed demo_out"
  using parse_area_referentially_closed [OF demo_parse] demo_parse by blast

section \<open>The main program of the converter: properties\<close>

lemma convert_all_prefix:
  "\<exists>n \<le> length files.
      snd (convert_all files written)
        = written @ map (\<lambda>f. (output_name f, written_text f)) (take n files)
    \<and> list_all parses (take n files)
    \<and> (if n = length files then fst (convert_all files written) = Inr ()
        else \<exists>e. parse_area (fst (files ! n)) (snd (files ! n)) = Inl e
                \<and> fst (convert_all files written) = Inl e)"
proof (induction files arbitrary: written)
  case Nil
  show ?case by simp
next
  case (Cons f files)
  obtain stem lines where f: "f = (stem, lines)" by (cases f)
  show ?case
  proof (cases "parse_area stem lines")
    case (Inl e)
    then show ?thesis
      by (intro exI [of _ 0]) (simp add: f)
  next
    case (Inr area)
    let ?w = "written @ [(slug stem @ ''.yaml'', py_join [LF] (dump_yaml area 0) @ [LF])]"
    from Cons [of ?w] obtain n where n: "n \<le> length files"
      "snd (convert_all files ?w)
         = ?w @ map (\<lambda>f. (output_name f, written_text f)) (take n files)"
      "list_all parses (take n files)"
      "if n = length files then fst (convert_all files ?w) = Inr ()
       else \<exists>e. parse_area (fst (files ! n)) (snd (files ! n)) = Inl e
               \<and> fst (convert_all files ?w) = Inl e"
      by blast
    have step: "convert_all (f # files) written = convert_all files ?w"
      by (simp add: f Inr)
    have this_one: "(slug stem @ ''.yaml'', py_join [LF] (dump_yaml area 0) @ [LF])
                    = (output_name f, written_text f)" "parses f"
      by (simp_all add: f Inr output_name_def written_text_def parses_def)
    show ?thesis
      using n this_one unfolding step
      by (intro exI [of _ "Suc n"]) (auto split: if_splits)
  qed
qed

lemma sort_files_length: "length (sort_files found) = length found"
  by (simp add: sort_files_def)

lemma sort_files_set: "set (sort_files found) = set found"
  by (simp add: sort_files_def)

lemma main_unfold:
  "main found = (if found = [] then (Inl SystemExit, []) else convert_all (sort_files found) [])"
proof -
  have "sort_files found = [] \<longleftrightarrow> found = []"
    using sort_files_length [of found] by (metis length_0_conv)
  then show ?thesis
    by (simp add: main_def sort_files_def [symmetric] Let_def)
qed

lemma main_prefix:
  assumes "found \<noteq> []"
  shows "\<exists>n \<le> length found.
            snd (main found)
              = map (\<lambda>f. (output_name f, written_text f)) (take n (sort_files found))
          \<and> list_all parses (take n (sort_files found))
          \<and> (if n = length found then fst (main found) = Inr ()
              else \<exists>e. parse_area (fst (sort_files found ! n)) (snd (sort_files found ! n)) = Inl e
                      \<and> fst (main found) = Inl e)"
proof -
  from convert_all_prefix [of "sort_files found" "[]"] obtain n where
    n: "n \<le> length found"
    "snd (convert_all (sort_files found) [])
       = map (\<lambda>f. (output_name f, written_text f)) (take n (sort_files found))"
    "list_all parses (take n (sort_files found))"
    "if n = length found then fst (convert_all (sort_files found) []) = Inr ()
     else \<exists>e. parse_area (fst (sort_files found ! n)) (snd (sort_files found ! n)) = Inl e
             \<and> fst (convert_all (sort_files found) []) = Inl e"
    unfolding sort_files_length by auto
  have m: "main found = convert_all (sort_files found) []"
    using assms by (simp add: main_unfold)
  show ?thesis
    unfolding m using n by (intro exI [of _ n]) simp
qed

text \<open>
  C8 (amended). With no \<open>*.are\<close> file in the input directory the converter writes nothing
  and ends with exit status 1. Otherwise it takes the files in sorted order (midgaard
  first, then by stem) and writes one output per file, named by the slug of the stem, for
  as long as the files parse: all of them, with exit status 0, if every file parses; the
  files before the first one that does not parse, with exit status 1 and that file's
  error, if one does not.
\<close>

theorem main_exit_status:
  "(found = [] \<longrightarrow> main found = (Inl SystemExit, []) \<and> exit_status (fst (main found)) = 1)
   \<and> (found \<noteq> [] \<longrightarrow>
        (\<exists>n \<le> length found.
            snd (main found)
              = map (\<lambda>f. (output_name f, written_text f)) (take n (sort_files found))
          \<and> list_all parses (take n (sort_files found))
          \<and> (n = length found \<longrightarrow> fst (main found) = Inr () \<and> exit_status (fst (main found)) = 0)
          \<and> (n < length found \<longrightarrow>
                (\<exists>e. parse_area (fst (sort_files found ! n)) (snd (sort_files found ! n)) = Inl e
                    \<and> fst (main found) = Inl e)
              \<and> exit_status (fst (main found)) = 1)))
   \<and> (found \<noteq> [] \<and> list_all parses found \<longrightarrow>
        fst (main found) = Inr () \<and> exit_status (fst (main found)) = 0
      \<and> snd (main found) = map (\<lambda>f. (output_name f, written_text f)) (sort_files found))"
proof (intro conjI impI)
  assume "found = []"
  then show "main found = (Inl SystemExit, [])" "exit_status (fst (main found)) = 1"
    by (simp_all add: main_unfold exit_status_def)
next
  assume ne: "found \<noteq> []"
  from main_prefix [OF ne] obtain n where
    n: "n \<le> length found"
    "snd (main found) = map (\<lambda>f. (output_name f, written_text f)) (take n (sort_files found))"
    "list_all parses (take n (sort_files found))"
    "if n = length found then fst (main found) = Inr ()
     else \<exists>e. parse_area (fst (sort_files found ! n)) (snd (sort_files found ! n)) = Inl e
             \<and> fst (main found) = Inl e"
    by blast
  have "n = length found \<longrightarrow> fst (main found) = Inr () \<and> exit_status (fst (main found)) = 0"
    using n(4) by (simp add: exit_status_def)
  moreover have "n < length found \<longrightarrow>
                (\<exists>e. parse_area (fst (sort_files found ! n)) (snd (sort_files found ! n)) = Inl e
                    \<and> fst (main found) = Inl e)
              \<and> exit_status (fst (main found)) = 1"
    using n(4) by (auto simp: exit_status_def)
  ultimately show "\<exists>n \<le> length found.
            snd (main found)
              = map (\<lambda>f. (output_name f, written_text f)) (take n (sort_files found))
          \<and> list_all parses (take n (sort_files found))
          \<and> (n = length found \<longrightarrow> fst (main found) = Inr () \<and> exit_status (fst (main found)) = 0)
          \<and> (n < length found \<longrightarrow>
                (\<exists>e. parse_area (fst (sort_files found ! n)) (snd (sort_files found ! n)) = Inl e
                    \<and> fst (main found) = Inl e)
              \<and> exit_status (fst (main found)) = 1)"
    using n(1,2,3) by blast
next
  assume a: "found \<noteq> [] \<and> list_all parses found"
  then have all: "list_all parses (sort_files found)"
    by (simp add: list_all_iff sort_files_set)
  from a main_prefix [of found] obtain n where
    n: "n \<le> length found"
    "snd (main found) = map (\<lambda>f. (output_name f, written_text f)) (take n (sort_files found))"
    "if n = length found then fst (main found) = Inr ()
     else \<exists>e. parse_area (fst (sort_files found ! n)) (snd (sort_files found ! n)) = Inl e
             \<and> fst (main found) = Inl e"
    by blast
  have full: "n = length found"
  proof (rule ccontr)
    assume "n \<noteq> length found"
    with n obtain e where "n < length (sort_files found)"
      "parse_area (fst (sort_files found ! n)) (snd (sort_files found ! n)) = Inl e"
      by (auto simp: sort_files_length)
    moreover from this(1) all have "parses (sort_files found ! n)"
      by (simp add: list_all_length)
    ultimately show False
      by (simp add: parses_def)
  qed
  with n(3) show "fst (main found) = Inr ()" "exit_status (fst (main found)) = 0"
    by (simp_all add: exit_status_def)
  from full n(2)
  show "snd (main found) = map (\<lambda>f. (output_name f, written_text f)) (sort_files found)"
    by (simp add: sort_files_length)
qed

lemma demo_found_parses: "demo_found \<noteq> [] \<and> list_all parses demo_found"
  by code_simp

lemma demo_found_names:
  "map output_name (sort_files demo_found) = [''midgaard.yaml'', ''zeta.yaml'']"
  by code_simp

theorem main_exit_status_witness:
  "main [] = (Inl SystemExit, []) \<and> exit_status (fst (main [])) = 1
   \<and> fst (main demo_found) = Inr () \<and> exit_status (fst (main demo_found)) = 0
   \<and> map fst (snd (main demo_found)) = [''midgaard.yaml'', ''zeta.yaml'']"
proof -
  from main_exit_status [of "[]"]
  have none: "main [] = (Inl SystemExit, []) \<and> exit_status (fst (main [])) = 1"
    by blast
  from main_exit_status [of demo_found] demo_found_parses
  have some: "fst (main demo_found) = Inr () \<and> exit_status (fst (main demo_found)) = 0
      \<and> snd (main demo_found)
          = map (\<lambda>f. (output_name f, written_text f)) (sort_files demo_found)"
    by blast
  then have "map fst (snd (main demo_found)) = map output_name (sort_files demo_found)"
    by (simp add: comp_def)
  then have names: "map fst (snd (main demo_found)) = [''midgaard.yaml'', ''zeta.yaml'']"
    unfolding demo_found_names .
  from none some names show ?thesis
    by blast
qed

text \<open>
  An input directory whose only area file has no rooms: the file is found, yet nothing
  is written and the run ends with the error that \<open>parse_area\<close> raises.
\<close>

theorem main_roomless_file_counterexample:
  "roomless_found \<noteq> [] \<and> main roomless_found = (Inl ValueError, [])
   \<and> exit_status (fst (main roomless_found)) = 1"
  by code_simp

end
